theory Spec2Isabelle
  imports Main
begin

section \<open>The object store\<close>

text \<open>
  \<^verbatim>\<open>extractBookmarks\<close> builds its result by mutating objects that are shared between
  the result array, the children arrays and the directory stack: the stack holds
  references to \<^verbatim>\<open>DirectoryItem\<close> objects that are at the same time elements of
  \<^verbatim>\<open>bookmarks\<close> or of a parent's \<^verbatim>\<open>children\<close>. The model therefore has an explicit
  store. A reference is an index into the store; \<^verbatim>\<open>new\<close> appends an object, so the
  reference of a new object is the length of the store before the allocation.
\<close>

type_synonym addr = nat

text \<open>
  The two concrete subclasses of \<^verbatim>\<open>BookmarkBase\<close> that \<^verbatim>\<open>extractBookmarks\<close> creates:
  \<^verbatim>\<open>DirectoryItem(title, level)\<close> with its \<^verbatim>\<open>children\<close> array (of references), and
  \<^verbatim>\<open>BookmarkItem(title, link)\<close>. The level is the heading depth handed over by the
  markdown library, a count of \<^verbatim>\<open>#\<close> characters.
\<close>

datatype BookmarkBase =
    DirectoryItem string nat "addr list"
  | BookmarkItem string string

type_synonym store = "BookmarkBase list"

text \<open>
  What can be thrown: reading a property of \<^verbatim>\<open>undefined\<close> is a \<^verbatim>\<open>TypeError\<close> in
  JavaScript, and a recursion that exhausts the call stack is a \<^verbatim>\<open>RangeError\<close>.
\<close>

datatype error = TypeError | RangeError

definition deref :: "store \<Rightarrow> addr \<Rightarrow> BookmarkBase option" where
  "deref h a = (if a < length h then Some (h ! a) else None)"

definition new_object :: "BookmarkBase \<Rightarrow> store \<Rightarrow> addr \<times> store" where
  "new_object obj h = (length h, h @ [obj])"

text \<open>
  \<^verbatim>\<open>dir.children.push(x)\<close>: only a \<^verbatim>\<open>DirectoryItem\<close> has a \<^verbatim>\<open>children\<close> array; on
  any other value the property read yields \<^verbatim>\<open>undefined\<close> and the call throws.
\<close>

definition children_push :: "addr \<Rightarrow> addr \<Rightarrow> store \<Rightarrow> error + store" where
  "children_push dir x h =
     (case deref h dir of
        Some (DirectoryItem title level children) \<Rightarrow>
          Inr (h[dir := DirectoryItem title level (children @ [x])])
      | _ \<Rightarrow> Inl TypeError)"

section \<open>The tree builder\<close>

text \<open>
  The variables captured by the two renderer callbacks: the result array
  \<^verbatim>\<open>bookmarks\<close>, the \<^verbatim>\<open>directoryStack\<close> (pushed and popped at its end), and the store.
\<close>

record builder =
  bookmarks :: "addr list"
  directoryStack :: "addr list"
  heap :: store

text \<open>
  The loop at the head of \<^verbatim>\<open>renderer.heading\<close>:
  \<^verbatim>\<open>while (directoryStack.length > 0 && level <= directoryStack[directoryStack.length - 1].level)
    directoryStack.pop();\<close>
  A \<^verbatim>\<open>BookmarkItem\<close> has no \<^verbatim>\<open>level\<close>; the comparison with \<^verbatim>\<open>undefined\<close> is false.
\<close>

function pop_while :: "nat \<Rightarrow> store \<Rightarrow> addr list \<Rightarrow> error + addr list" where
  "pop_while level h stack =
     (if length stack > 0 then
        (case deref h (stack ! (length stack - 1)) of
           None \<Rightarrow> Inl TypeError
         | Some (BookmarkItem title link) \<Rightarrow> Inr stack
         | Some (DirectoryItem title top_level children) \<Rightarrow>
             if level \<le> top_level then pop_while level h (butlast stack) else Inr stack)
      else Inr stack)"
  by pat_completeness auto
termination
  by (relation "measure (\<lambda>(level, h, stack). length stack)") auto

declare pop_while.simps [simp del]

definition renderer_heading :: "string \<Rightarrow> nat \<Rightarrow> builder \<Rightarrow> error + builder" where
  "renderer_heading text level s =
     (case pop_while level (heap s) (directoryStack s) of
        Inl e \<Rightarrow> Inl e
      | Inr stack \<Rightarrow>
          (case new_object (DirectoryItem text level []) (heap s) of
             (newDirectory, h1) \<Rightarrow>
               if length stack > 0 then
                 (case children_push (stack ! (length stack - 1)) newDirectory h1 of
                    Inl e \<Rightarrow> Inl e
                  | Inr h2 \<Rightarrow>
                      Inr \<lparr>bookmarks = bookmarks s,
                           directoryStack = stack @ [newDirectory],
                           heap = h2\<rparr>)
               else
                 Inr \<lparr>bookmarks = bookmarks s @ [newDirectory],
                      directoryStack = stack @ [newDirectory],
                      heap = h1\<rparr>))"

text \<open>
  \<^verbatim>\<open>renderer.link = (href, title, text) => ...\<close>: the item is
  \<^verbatim>\<open>new BookmarkItem(text, href)\<close>; the markdown title of the link is not used.
\<close>

definition renderer_link :: "string \<Rightarrow> string option \<Rightarrow> string \<Rightarrow> builder \<Rightarrow> error + builder" where
  "renderer_link href title text s =
     (case new_object (BookmarkItem text href) (heap s) of
        (linkItem, h1) \<Rightarrow>
          if length (directoryStack s) > 0 then
            (case children_push (directoryStack s ! (length (directoryStack s) - 1)) linkItem h1 of
               Inl e \<Rightarrow> Inl e
             | Inr h2 \<Rightarrow> Inr (s\<lparr>heap := h2\<rparr>))
          else
            Inr (s\<lparr>bookmarks := bookmarks s @ [linkItem], heap := h1\<rparr>))"

text \<open>
  The markdown library \<^verbatim>\<open>marked\<close> is imported, not part of the repository. All that
  \<^verbatim>\<open>extractBookmarks\<close> observes of it is the sequence of calls it makes on the two
  overridden renderer methods while it renders the text; every other renderer method
  is the library's default and touches neither \<^verbatim>\<open>bookmarks\<close> nor the stack. The
  library is a parameter of the model. In \<open>extractBookmarks\<close> below it is \<open>marked\<close>:
  the calls it makes for a text, in the order it makes them, for a library call that
  returns and depends on the text alone. The call as the source has it, which may also
  throw and may read state of the library, is \<open>extractBookmarks_with\<close>.
\<close>

datatype renderer_call =
    HeadingCall string nat
  | LinkCall string "string option" string

fun dispatch :: "renderer_call \<Rightarrow> builder \<Rightarrow> error + builder" where
  "dispatch (HeadingCall text level) s = renderer_heading text level s"
| "dispatch (LinkCall href title text) s = renderer_link href title text s"

fun run_calls :: "renderer_call list \<Rightarrow> builder \<Rightarrow> error + builder" where
  "run_calls [] s = Inr s"
| "run_calls (c # cs) s =
     (case dispatch c s of Inl e \<Rightarrow> Inl e | Inr s' \<Rightarrow> run_calls cs s')"

text \<open>
  \<^verbatim>\<open>extractBookmarks\<close> starts from an empty result array and an empty stack, in
  whatever store the program has reached, and returns the result array (with the store
  its elements live in).
\<close>

definition initial :: "store \<Rightarrow> builder" where
  "initial h = \<lparr>bookmarks = [], directoryStack = [], heap = h\<rparr>"

definition extractBookmarks ::
  "(string \<Rightarrow> renderer_call list) \<Rightarrow> string \<Rightarrow> store \<Rightarrow> error + addr list \<times> store" where
  "extractBookmarks marked markdownContent h =
     (case run_calls (marked markdownContent) (initial h) of
        Inl e \<Rightarrow> Inl e
      | Inr s \<Rightarrow> Inr (bookmarks s, heap s))"

text \<open>
  The call \<^verbatim>\<open>marked(markdownContent, { renderer })\<close> is not guarded by any
  \<^verbatim>\<open>try\<close>, and the library is a module with state of its own (its defaults, and
  whatever it reads, such as \<^verbatim>\<open>Math.random\<close>). A library is therefore a function of
  its state \<open>l\<close> and the text that gives the calls it makes on the renderer, how it
  ends (it returns, or it throws), and its new state. When it throws, or a callback
  does, \<^verbatim>\<open>extractBookmarks\<close> throws the same error; otherwise it returns
  \<^verbatim>\<open>bookmarks\<close>. A library call that never ends has no value in this model.
\<close>

datatype completion = Returned | Threw error

definition extractBookmarks_with ::
  "('l \<Rightarrow> string \<Rightarrow> (renderer_call list \<times> completion) \<times> 'l) \<Rightarrow> string \<Rightarrow> 'l \<times> store \<Rightarrow>
   (error + addr list \<times> store) \<times> 'l" where
  "extractBookmarks_with library markdownContent st =
     (case st of
        (l, h) \<Rightarrow>
          (case library l markdownContent of
             ((calls, completion), l') \<Rightarrow>
               (case run_calls calls (initial h) of
                  Inl e \<Rightarrow> (Inl e, l')
                | Inr s \<Rightarrow>
                    (case completion of
                       Threw e \<Rightarrow> (Inl e, l')
                     | Returned \<Rightarrow> (Inr (bookmarks s, heap s), l')))))"

text \<open>A library that returns and depends on the text alone, as \<open>extractBookmarks\<close> has it.\<close>

definition pure_library ::
  "(string \<Rightarrow> renderer_call list) \<Rightarrow> 'l \<Rightarrow> string \<Rightarrow> (renderer_call list \<times> completion) \<times> 'l" where
  "pure_library marked l markdownContent = ((marked markdownContent, Returned), l)"

section \<open>The data provider\<close>

text \<open>
  What \<^verbatim>\<open>readBookmarksFile\<close> reads of its environment: the workspace folders (their
  \<^verbatim>\<open>uri.fsPath\<close>; \<^verbatim>\<open>undefined\<close> when no folder is open) and the files that exist, with
  their contents. \<^verbatim>\<open>path.join\<close> is modelled as concatenation with a separator.
\<close>

record system =
  workspaceFolders :: "string list option"
  files :: "string \<Rightarrow> string option"

definition path_join :: "string \<Rightarrow> string \<Rightarrow> string" where
  "path_join dir name = dir @ ''/'' @ name"

text \<open>
  \<^verbatim>\<open>if (!workspaceFolders) return null;\<close> An empty array is not falsy, so
  \<^verbatim>\<open>workspaceFolders[0].uri\<close> on it is a \<^verbatim>\<open>TypeError\<close>.
\<close>

definition readBookmarksFile :: "system \<Rightarrow> error + string option" where
  "readBookmarksFile sys =
     (case workspaceFolders sys of
        None \<Rightarrow> Inr None
      | Some folders \<Rightarrow>
          (case folders of
             [] \<Rightarrow> Inl TypeError
           | folder # rest \<Rightarrow>
               (case files sys (path_join folder ''BOOKMARKS.md'') of
                  Some content \<Rightarrow> Inr (Some content)
                | None \<Rightarrow> Inr None)))"

text \<open>
  The state of \<^verbatim>\<open>BookmarksDataProvider\<close>: its \<^verbatim>\<open>bookmarks\<close> field, the number of
  events fired on \<^verbatim>\<open>_onDidChangeTreeData\<close>, and the store the references live in.
\<close>

record provider =
  this_bookmarks :: "addr list"
  fired :: nat
  store :: store

text \<open>
  \<^verbatim>\<open>refresh\<close>: \<^verbatim>\<open>if (content) { this.bookmarks = extractBookmarks(content); fire }\<close>.
  Both \<^verbatim>\<open>null\<close> and the empty string are falsy.
\<close>

definition refresh :: "(string \<Rightarrow> renderer_call list) \<Rightarrow> system \<Rightarrow> provider \<Rightarrow> error + provider" where
  "refresh marked sys p =
     (case readBookmarksFile sys of
        Inl e \<Rightarrow> Inl e
      | Inr None \<Rightarrow> Inr p
      | Inr (Some content) \<Rightarrow>
          if content = [] then Inr p
          else (case extractBookmarks marked content (store p) of
                  Inl e \<Rightarrow> Inl e
                | Inr (refs, h') \<Rightarrow>
                    Inr \<lparr>this_bookmarks = refs, fired = Suc (fired p), store = h'\<rparr>))"

section \<open>The forest denoted by a result\<close>

text \<open>
  The specification's data model: a node is a Directory (title, level, children) or a
  Link (title, target); a forest is a list of nodes. Two results are deep-equal when
  they denote the same forest.
\<close>

datatype node =
    Directory string nat "node list"
  | Link string string

text \<open>
  The node a reference denotes: the unfolding of the object graph below it. The
  builder only ever stores references to objects allocated after their parent, so
  the unfolding follows a child reference only when it is larger than the parent's;
  a dangling or backward reference denotes nothing.
\<close>

function node_at :: "store \<Rightarrow> addr \<Rightarrow> node option" where
  "node_at h a =
     (if a < length h then
        (case h ! a of
           BookmarkItem title link \<Rightarrow> Some (Link title link)
         | DirectoryItem title level children \<Rightarrow>
             if \<forall>c \<in> set children. a < c
             then map_option (Directory title level) (those (map (node_at h) children))
             else None)
      else None)"
  by pat_completeness auto
termination
  by (relation "measure (\<lambda>(h, a). length h - a)") auto

declare node_at.simps [simp del]

definition forest_at :: "store \<Rightarrow> addr list \<Rightarrow> node list option" where
  "forest_at h refs = those (map (node_at h) refs)"

text \<open>
  A call returns the forest \<open>F\<close> when it does not throw and the array it returns denotes
  \<open>F\<close> in the store it leaves.
\<close>

definition returns_forest :: "error + addr list \<times> store \<Rightarrow> node list \<Rightarrow> bool" where
  "returns_forest r F = (case r of Inl e \<Rightarrow> False | Inr (refs, h) \<Rightarrow> forest_at h refs = Some F)"

section \<open>The tree builder of the specification\<close>

text \<open>
  Section 4.2 of the specification describes the builder on the forest itself: a Link
  or a new Directory is appended as the last child of the innermost open Directory, or
  to the root sequence when none is open. The open Directories are the last elements
  along the rightmost path of the forest, so the innermost one is found by descending
  through last children as many times as there are open Directories.
\<close>

fun attach :: "nat \<Rightarrow> node \<Rightarrow> node list \<Rightarrow> node list" where
  "attach 0 n F = F @ [n]"
| "attach (Suc k) n F =
     (if F = [] then F
      else (case last F of
              Directory title level children \<Rightarrow>
                butlast F @ [Directory title level (attach k n children)]
            | Link title target \<Rightarrow> F))"

text \<open>
  The stack of the specification, reduced to the levels of the open Directories
  (outermost first). A Heading pops while the stack is not empty and the level on top
  is greater than or equal to the new level.
\<close>

definition spec_close :: "nat \<Rightarrow> nat list \<Rightarrow> nat list" where
  "spec_close level ls = rev (dropWhile (\<lambda>l. level \<le> l) (rev ls))"

fun spec_step :: "renderer_call \<Rightarrow> node list \<times> nat list \<Rightarrow> node list \<times> nat list" where
  "spec_step (HeadingCall text level) (F, ls) =
     (let ls' = spec_close level ls
      in (attach (length ls') (Directory text level []) F, ls' @ [level]))"
| "spec_step (LinkCall href title text) (F, ls) = (attach (length ls) (Link text href) F, ls)"

definition spec_build :: "renderer_call list \<Rightarrow> node list" where
  "spec_build calls = fst (fold spec_step calls ([], []))"

section \<open>A minimal event source\<close>

text \<open>
  Modelled from the spec: the Markdown Event Source of section 4.1 (the \<^verbatim>\<open>marked\<close>
  library, which is not in the repository), for the minimal file shape of section 6
  only: a line that starts with one to six \<^verbatim>\<open>#\<close> and a space is a Heading of that
  level, and every \<^verbatim>\<open>[text](url)\<close> on any other line is a Link. It instantiates the
  parameter \<open>marked\<close> on concrete documents; no theorem about the builder depends
  on it.
\<close>

fun split_lines :: "string \<Rightarrow> string list" where
  "split_lines [] = [[]]"
| "split_lines (c # cs) =
     (if c = CHR 0x0A then [] # split_lines cs
      else (case split_lines cs of
              [] \<Rightarrow> [[c]]
            | line # lines \<Rightarrow> (c # line) # lines))"

definition heading_of :: "string \<Rightarrow> renderer_call option" where
  "heading_of line =
     (let n = length (takeWhile (\<lambda>c. c = CHR ''#'') line);
          rest = drop n line
      in if 1 \<le> n \<and> n \<le> 6 \<and> (rest = [] \<or> hd rest = CHR '' '')
         then Some (HeadingCall (dropWhile (\<lambda>c. c = CHR '' '') rest) n)
         else None)"

definition link_at :: "string \<Rightarrow> renderer_call option" where
  "link_at s =
     (let text = takeWhile (\<lambda>c. c \<noteq> CHR '']'') s;
          rest = drop (length text) s
      in (case rest of
            c1 # c2 # tail \<Rightarrow>
              if c1 = CHR '']'' \<and> c2 = CHR ''('' \<and> CHR '')'' \<in> set tail
              then Some (LinkCall (takeWhile (\<lambda>c. c \<noteq> CHR '')'') tail) None text)
              else None
          | _ \<Rightarrow> None))"

fun links_of :: "string \<Rightarrow> renderer_call list" where
  "links_of [] = []"
| "links_of (c # cs) =
     (if c = CHR ''['' then (case link_at cs of Some call \<Rightarrow> [call] | None \<Rightarrow> []) else [])
     @ links_of cs"

definition marked_min :: "string \<Rightarrow> renderer_call list" where
  "marked_min text =
     concat (map (\<lambda>line. case heading_of line of Some call \<Rightarrow> [call] | None \<Rightarrow> links_of line)
                 (split_lines text))"

text \<open>The round-trip document of section 8 of the specification, line by line.\<close>

definition unlines :: "string list \<Rightarrow> string" where
  "unlines ls = concat (map (\<lambda>l. l @ [CHR 0x0A]) ls)"

definition roundtrip_document :: string where
  "roundtrip_document =
     unlines [''# A'', ''## B'', ''- [X](http://x)'', ''# C'', ''- [Y](http://y)'']"

section \<open>Libraries that throw or keep state\<close>









section \<open>How the store represents a forest\<close>

text \<open>
  \<open>rep h S a n\<close>: the objects at and below reference \<open>a\<close> represent the node \<open>n\<close>,
  and all of them have their references in \<open>S\<close>. The set \<open>S\<close> is the footprint:
  a store that agrees with \<open>h\<close> on \<open>S\<close> represents the same node.
\<close>

fun rep :: "store \<Rightarrow> addr set \<Rightarrow> addr \<Rightarrow> node \<Rightarrow> bool" where
  "rep h S a (Link title target) = (a \<in> S \<and> deref h a = Some (BookmarkItem title target))"
| "rep h S a (Directory title level cs) =
     (a \<in> S \<and> (\<exists>children. deref h a = Some (DirectoryItem title level children) \<and>
        (\<forall>c \<in> set children. a < c) \<and> list_all2 (rep h S) children cs))"

text \<open>
  \<open>open_rep h S stack refs F\<close>: the array \<open>refs\<close> represents the forest \<open>F\<close>, where
  the Directories on \<open>stack\<close> (outermost first) are the last elements along the
  rightmost path and everything else lies in the footprint \<open>S\<close>.
\<close>

fun open_rep :: "store \<Rightarrow> addr set \<Rightarrow> addr list \<Rightarrow> addr list \<Rightarrow> node list \<Rightarrow> bool" where
  "open_rep h S [] refs F = list_all2 (rep h S) refs F"
| "open_rep h S (a # as) refs F =
     (\<exists>refs0 F0 title level cs children.
        refs = refs0 @ [a] \<and> F = F0 @ [Directory title level cs] \<and>
        list_all2 (rep h S) refs0 F0 \<and>
        deref h a = Some (DirectoryItem title level children) \<and>
        (\<forall>c \<in> set children. a < c) \<and>
        open_rep h S as children cs)"

text \<open>The closed part of a store: every allocated object that is not on the stack.\<close>

definition closed_set :: "store \<Rightarrow> addr list \<Rightarrow> addr set" where
  "closed_set h stack = {a. a < length h \<and> a \<notin> set stack}"

definition has_level :: "store \<Rightarrow> addr \<Rightarrow> nat \<Rightarrow> bool" where
  "has_level h a l = (\<exists>title children. deref h a = Some (DirectoryItem title l children))"

text \<open>
  The simulation between a state of the builder and a state of the specification's
  builder (the forest so far and the levels of the open Directories).
\<close>

definition sim :: "builder \<Rightarrow> node list \<times> nat list \<Rightarrow> bool" where
  "sim s z =
     (open_rep (heap s) (closed_set (heap s) (directoryStack s)) (directoryStack s) (bookmarks s) (fst z) \<and>
      distinct (directoryStack s) \<and>
      list_all2 (has_level (heap s)) (directoryStack s) (snd z))"

text \<open>
  The store after one callback: the new object is appended, and when the stack is
  not empty its reference is pushed on the children of the top of the stack.
\<close>

definition pushed :: "store \<Rightarrow> addr list \<Rightarrow> BookmarkBase \<Rightarrow> store" where
  "pushed h stack obj =
     (if stack = [] then h @ [obj]
      else (case h ! last stack of
              DirectoryItem title level children \<Rightarrow>
                (h @ [obj])[last stack := DirectoryItem title level (children @ [length h])]
            | BookmarkItem title link \<Rightarrow> h @ [obj]))"

section \<open>Level-monotonic nesting\<close>

text \<open>
  A node is level-monotonic when every Directory below it (and the node itself) has
  only child Directories of a strictly greater level.
\<close>

fun deeper :: "nat \<Rightarrow> node \<Rightarrow> bool" where
  "deeper l (Directory title level children) = (l < level)"
| "deeper l (Link title target) = True"

fun level_monotonic :: "node \<Rightarrow> bool" where
  "level_monotonic (Link title target) = True"
| "level_monotonic (Directory title level children) =
     list_all (\<lambda>c. deeper level c \<and> level_monotonic c) children"

text \<open>
  The same for a forest under construction: along the rightmost path the open
  Directories have the levels \<open>ls\<close> (outermost first), their children so far lie
  strictly below them, and everything is level-monotonic.
\<close>

fun open_mono :: "nat list \<Rightarrow> node list \<Rightarrow> bool" where
  "open_mono [] F = list_all level_monotonic F"
| "open_mono (l # ls) F =
     (\<exists>F0 title cs. F = F0 @ [Directory title l cs] \<and> list_all level_monotonic F0 \<and>
        list_all (deeper l) cs \<and> open_mono ls cs)"

section \<open>Closing and sibling order\<close>

text \<open>
  A heading of level \<open>level\<close> closes the open Directory at \<open>a\<close> when the loop
  condition \<^verbatim>\<open>level <= directoryStack[top].level\<close> holds for it.
\<close>

definition closes :: "nat \<Rightarrow> store \<Rightarrow> addr \<Rightarrow> bool" where
  "closes level h a =
     (case deref h a of
        Some (DirectoryItem title top_level children) \<Rightarrow> level \<le> top_level
      | _ \<Rightarrow> False)"

fun is_heading :: "renderer_call \<Rightarrow> bool" where
  "is_heading (HeadingCall label level) = True"
| "is_heading (LinkCall href title label) = False"

text \<open>\<open>follows a b xs\<close>: somewhere in the array \<open>xs\<close>, \<open>b\<close> comes directly after \<open>a\<close>.\<close>

fun follows :: "addr \<Rightarrow> addr \<Rightarrow> addr list \<Rightarrow> bool" where
  "follows a b (x # y # zs) = ((x = a \<and> y = b) \<or> follows a b (y # zs))"
| "follows a b zs = False"

text \<open>
  What later callbacks may do to an earlier state: allocate, append new references to
  \<^verbatim>\<open>bookmarks\<close> and to the children of Directories, and leave every object that is
  not on the stack as it is.
\<close>

definition extends :: "builder \<Rightarrow> builder \<Rightarrow> bool" where
  "extends s s' =
     (length (heap s) \<le> length (heap s') \<and>
      (\<exists>more. bookmarks s' = bookmarks s @ more \<and> (\<forall>x \<in> set more. length (heap s) \<le> x)) \<and>
      (\<forall>a \<in> set (directoryStack s'). a \<in> set (directoryStack s) \<or> length (heap s) \<le> a) \<and>
      (\<forall>a. a < length (heap s) \<longrightarrow> a \<notin> set (directoryStack s) \<longrightarrow>
           deref (heap s') a = deref (heap s) a) \<and>
      (\<forall>a title level children. deref (heap s) a = Some (DirectoryItem title level children) \<longrightarrow>
           (\<exists>more. deref (heap s') a = Some (DirectoryItem title level (children @ more)))))"

section \<open>Representation lemmas\<close>

lemma rep_transfer:
  "rep h S a n \<Longrightarrow> S \<subseteq> S' \<Longrightarrow> (\<And>x. x \<in> S \<Longrightarrow> deref h' x = deref h x) \<Longrightarrow> rep h' S' a n"
proof (induction n arbitrary: a)
  case (Link title target)
  then show ?case by auto
next
  case (Directory title level cs)
  from Directory.prems(1) obtain children where
    a: "a \<in> S" and d: "deref h a = Some (DirectoryItem title level children)"
    and gt: "\<forall>c \<in> set children. a < c" and all: "list_all2 (rep h S) children cs"
    by auto
  have "list_all2 (rep h' S') children cs"
    using all
  proof (rule list.rel_mono_strong)
    fix c n assume "c \<in> set children" "n \<in> set cs" "rep h S c n"
    then show "rep h' S' c n"
      using Directory.IH Directory.prems(2,3) by blast
  qed
  with a d gt Directory.prems(2,3) show ?case by auto
qed

lemma those_map_Some:
  "list_all2 (\<lambda>x y. f x = Some y) xs ys \<Longrightarrow> those (map f xs) = Some ys"
  by (induction rule: list_all2_induct) auto

lemma those_append:
  "those xs = Some us \<Longrightarrow> those ys = Some vs \<Longrightarrow> those (xs @ ys) = Some (us @ vs)"
  by (induction xs arbitrary: us) (auto split: option.splits)

lemma node_at_Directory:
  "deref h a = Some (DirectoryItem title level children) \<Longrightarrow> \<forall>c \<in> set children. a < c \<Longrightarrow>
   those (map (node_at h) children) = Some cs \<Longrightarrow> node_at h a = Some (Directory title level cs)"
  by (subst node_at.simps) (auto simp: deref_def split: if_splits)

lemma node_at_Link:
  "deref h a = Some (BookmarkItem title target) \<Longrightarrow> node_at h a = Some (Link title target)"
  by (subst node_at.simps) (auto simp: deref_def split: if_splits)

lemma rep_node_at: "rep h S a n \<Longrightarrow> node_at h a = Some n"
proof (induction n arbitrary: a)
  case (Link title target)
  then show ?case by (simp add: node_at_Link)
next
  case (Directory title level cs)
  from Directory.prems obtain children where
    d: "deref h a = Some (DirectoryItem title level children)"
    and gt: "\<forall>c \<in> set children. a < c" and all: "list_all2 (rep h S) children cs"
    by auto
  have "list_all2 (\<lambda>c n. node_at h c = Some n) children cs"
    using all
  proof (rule list.rel_mono_strong)
    fix c n assume "c \<in> set children" "n \<in> set cs" "rep h S c n"
    then show "node_at h c = Some n" using Directory.IH by blast
  qed
  then have "those (map (node_at h) children) = Some cs" by (rule those_map_Some)
  with d gt show ?case by (rule node_at_Directory)
qed

lemma reps_forest_at: "list_all2 (rep h S) refs F \<Longrightarrow> forest_at h refs = Some F"
  unfolding forest_at_def
  by (rule those_map_Some) (erule list.rel_mono_strong, erule rep_node_at)

lemma open_rep_forest_at: "open_rep h S as refs F \<Longrightarrow> forest_at h refs = Some F"
proof (induction as arbitrary: refs F)
  case Nil
  then show ?case by (simp add: reps_forest_at)
next
  case (Cons a as)
  from Cons.prems obtain refs0 F0 title level cs children where
    r: "refs = refs0 @ [a]" and f: "F = F0 @ [Directory title level cs]"
    and closed: "list_all2 (rep h S) refs0 F0"
    and d: "deref h a = Some (DirectoryItem title level children)"
    and gt: "\<forall>c \<in> set children. a < c"
    and sub: "open_rep h S as children cs"
    by auto
  from Cons.IH[OF sub] have "those (map (node_at h) children) = Some cs"
    by (simp add: forest_at_def)
  with d gt have "node_at h a = Some (Directory title level cs)"
    by (rule node_at_Directory)
  moreover from closed have "those (map (node_at h) refs0) = Some F0"
    using reps_forest_at by (simp add: forest_at_def)
  ultimately show ?case
    unfolding forest_at_def r f by (simp add: those_append)
qed

lemma reps_transfer:
  "list_all2 (rep h S) refs F \<Longrightarrow> S \<subseteq> S' \<Longrightarrow> (\<And>x. x \<in> S \<Longrightarrow> deref h' x = deref h x) \<Longrightarrow>
   list_all2 (rep h' S') refs F"
  by (erule list.rel_mono_strong) (rule rep_transfer)

lemma open_rep_prepend:
  "list_all2 (rep h S) refs0 F0 \<Longrightarrow> open_rep h S bs refs F \<Longrightarrow>
   open_rep h S bs (refs0 @ refs) (F0 @ F)"
proof (cases bs)
  case Nil
  assume "list_all2 (rep h S) refs0 F0" "open_rep h S bs refs F"
  with Nil show ?thesis by (simp add: list_all2_appendI)
next
  case (Cons b bs')
  assume c: "list_all2 (rep h S) refs0 F0" and o: "open_rep h S bs refs F"
  from o Cons obtain refs1 F1 title level cs children where
    r: "refs = refs1 @ [b]" and f: "F = F1 @ [Directory title level cs]"
    and closed: "list_all2 (rep h S) refs1 F1"
    and d: "deref h b = Some (DirectoryItem title level children)"
    and gt: "\<forall>c \<in> set children. b < c"
    and sub: "open_rep h S bs' children cs"
    by auto
  from c closed have "list_all2 (rep h S) (refs0 @ refs1) (F0 @ F1)"
    by (rule list_all2_appendI)
  with d gt sub have
    "\<exists>refs2 F2. refs0 @ refs = refs2 @ [b] \<and> F0 @ F = F2 @ [Directory title level cs] \<and>
       list_all2 (rep h S) refs2 F2 \<and> deref h b = Some (DirectoryItem title level children) \<and>
       (\<forall>c \<in> set children. b < c) \<and> open_rep h S bs' children cs"
    unfolding r f by (intro exI[of _ "refs0 @ refs1"] exI[of _ "F0 @ F1"]) simp
  then show ?thesis unfolding Cons by auto
qed

lemma open_rep_close:
  "open_rep h S (as @ [a]) refs F \<Longrightarrow> a \<in> S' \<Longrightarrow> S \<subseteq> S' \<Longrightarrow> open_rep h S' as refs F"
proof (induction as arbitrary: refs F)
  case Nil
  from Nil.prems(1) obtain refs0 F0 title level cs children where
    r: "refs = refs0 @ [a]" and f: "F = F0 @ [Directory title level cs]"
    and closed: "list_all2 (rep h S) refs0 F0"
    and d: "deref h a = Some (DirectoryItem title level children)"
    and gt: "\<forall>c \<in> set children. a < c"
    and sub: "list_all2 (rep h S) children cs"
    by auto
  from sub Nil.prems(3) have "list_all2 (rep h S') children cs"
    by (rule reps_transfer) simp
  with d gt Nil.prems(2) have "rep h S' a (Directory title level cs)" by auto
  moreover from closed Nil.prems(3) have "list_all2 (rep h S') refs0 F0"
    by (rule reps_transfer) simp
  ultimately show ?case unfolding r f by (simp add: list_all2_appendI)
next
  case (Cons b as)
  from Cons.prems(1) obtain refs0 F0 title level cs children where
    r: "refs = refs0 @ [b]" and f: "F = F0 @ [Directory title level cs]"
    and closed: "list_all2 (rep h S) refs0 F0"
    and d: "deref h b = Some (DirectoryItem title level children)"
    and gt: "\<forall>c \<in> set children. b < c"
    and sub: "open_rep h S (as @ [a]) children cs"
    by auto
  from Cons.IH[OF sub Cons.prems(2,3)] have "open_rep h S' as children cs" .
  moreover from closed Cons.prems(3) have "list_all2 (rep h S') refs0 F0"
    by (rule reps_transfer) simp
  ultimately show ?case using d gt unfolding r f by auto
qed

lemma open_rep_attach:
  assumes "open_rep h S as refs F"
    and "S \<subseteq> S'"
    and "\<And>x. x \<in> S \<Longrightarrow> deref h' x = deref h x"
    and "\<And>x. x \<in> set (butlast as) \<Longrightarrow> deref h' x = deref h x"
    and "\<And>title level children. as \<noteq> [] \<Longrightarrow>
           deref h (last as) = Some (DirectoryItem title level children) \<Longrightarrow>
           deref h' (last as) = Some (DirectoryItem title level (children @ [c]))"
    and "\<forall>x \<in> set as. x < c"
    and "open_rep h' S' bs [c] [n]"
  shows "open_rep h' S' (as @ bs) (if as = [] then refs @ [c] else refs) (attach (length as) n F)"
  using assms
proof (induction as arbitrary: refs F)
  case Nil
  from Nil.prems(1) have "list_all2 (rep h S) refs F" by simp
  then have "list_all2 (rep h' S') refs F"
    using Nil.prems(2,3) by (rule reps_transfer)
  then show ?case using Nil.prems(7) by (simp add: open_rep_prepend)
next
  case (Cons a as)
  from Cons.prems(1) obtain refs0 F0 title level cs children where
    r: "refs = refs0 @ [a]" and f: "F = F0 @ [Directory title level cs]"
    and closed: "list_all2 (rep h S) refs0 F0"
    and d: "deref h a = Some (DirectoryItem title level children)"
    and gt: "\<forall>c \<in> set children. a < c"
    and sub: "open_rep h S as children cs"
    by auto
  let ?children = "if as = [] then children @ [c] else children"
  have sub': "open_rep h' S' (as @ bs) ?children (attach (length as) n cs)"
  proof (rule Cons.IH[OF sub Cons.prems(2,3)])
    fix x assume "x \<in> set (butlast as)"
    then have "x \<in> set (butlast (a # as))" by (auto split: if_splits)
    then show "deref h' x = deref h x" by (rule Cons.prems(4))
  next
    fix title level children
    assume "as \<noteq> []" "deref h (last as) = Some (DirectoryItem title level children)"
    then show "deref h' (last as) = Some (DirectoryItem title level (children @ [c]))"
      using Cons.prems(5)[of title level children] by simp
  next
    show "\<forall>x \<in> set as. x < c" using Cons.prems(6) by simp
  next
    show "open_rep h' S' bs [c] [n]" by (rule Cons.prems(7))
  qed
  have d': "deref h' a = Some (DirectoryItem title level ?children)"
  proof (cases "as = []")
    case True
    then show ?thesis using Cons.prems(5)[of title level children] d by simp
  next
    case False
    then have "a \<in> set (butlast (a # as))" by simp
    then have "deref h' a = deref h a" by (rule Cons.prems(4))
    with d False show ?thesis by simp
  qed
  have gt': "\<forall>x \<in> set ?children. a < x" using gt Cons.prems(6) by auto
  from closed have closed': "list_all2 (rep h' S') refs0 F0"
    using Cons.prems(2,3) by (rule reps_transfer)
  have "attach (length (a # as)) n F = F0 @ [Directory title level (attach (length as) n cs)]"
    unfolding f by simp
  with sub' d' gt' closed' show ?case unfolding r by auto
qed

lemma spec_close_snoc:
  "spec_close level (ls @ [l]) = (if level \<le> l then spec_close level ls else ls @ [l])"
  by (simp add: spec_close_def)

lemma spec_close_Nil: "spec_close level [] = []"
  by (simp add: spec_close_def)

lemma length_spec_close: "length (spec_close level ls) \<le> length ls"
  by (simp add: spec_close_def) (metis length_dropWhile_le length_rev)

lemma spec_close_take: "spec_close level ls = take (length (spec_close level ls)) ls"
  by (induction ls rule: rev_induct) (auto simp: spec_close_snoc spec_close_Nil length_spec_close)

lemma pop_while_Nil: "pop_while level h [] = Inr []"
  by (subst pop_while.simps) simp

lemma pop_while_snoc:
  "deref h a = Some (DirectoryItem title l children) \<Longrightarrow>
   pop_while level h (stack @ [a]) = (if level \<le> l then pop_while level h stack else Inr (stack @ [a]))"
  by (subst pop_while.simps) simp

lemma pop_while_sim:
  "list_all2 (has_level h) stack ls \<Longrightarrow>
   pop_while level h stack = Inr (take (length (spec_close level ls)) stack)"
proof (induction stack arbitrary: ls rule: rev_induct)
  case Nil
  then show ?case by (simp add: pop_while_Nil)
next
  case (snoc a stack)
  from snoc.prems obtain ls0 l where ls: "ls = ls0 @ [l]"
    and all: "list_all2 (has_level h) stack ls0" and top: "has_level h a l"
    by (auto simp: list_all2_append1 list_all2_Cons1)
  from top obtain title children where d: "deref h a = Some (DirectoryItem title l children)"
    by (auto simp: has_level_def)
  show ?case
  proof (cases "level \<le> l")
    case True
    have "length (spec_close level ls0) \<le> length stack"
      using length_spec_close[of level ls0] list_all2_lengthD[OF all] by simp
    with True show ?thesis
      unfolding ls using snoc.IH[OF all] d by (simp add: pop_while_snoc spec_close_snoc)
  next
    case False
    then show ?thesis
      unfolding ls using d list_all2_lengthD[OF all] by (simp add: pop_while_snoc spec_close_snoc)
  qed
qed

lemma open_rep_take:
  "open_rep h (closed_set h stack) stack refs F \<Longrightarrow> distinct stack \<Longrightarrow>
   \<forall>a \<in> set stack. a < length h \<Longrightarrow>
   open_rep h (closed_set h (take k stack)) (take k stack) refs F"
proof (induction stack rule: rev_induct)
  case Nil
  then show ?case by simp
next
  case (snoc a stack)
  show ?case
  proof (cases "k \<le> length stack")
    case True
    have "open_rep h (closed_set h stack) stack refs F"
      using snoc.prems(1)
    proof (rule open_rep_close)
      show "a \<in> closed_set h stack" using snoc.prems(2,3) by (simp add: closed_set_def)
      show "closed_set h (stack @ [a]) \<subseteq> closed_set h stack" by (auto simp: closed_set_def)
    qed
    then have "open_rep h (closed_set h (take k stack)) (take k stack) refs F"
      using snoc.prems(2,3) by (intro snoc.IH) auto
    with True show ?thesis by simp
  next
    case False
    then show ?thesis using snoc.prems(1) by simp
  qed
qed

lemma has_level_bound: "has_level h a l \<Longrightarrow> a < length h"
  by (auto simp: has_level_def deref_def split: if_splits)

lemma levels_bound: "list_all2 (has_level h) stack ls \<Longrightarrow> a \<in> set stack \<Longrightarrow> a < length h"
  by (auto simp: list_all2_conv_all_nth in_set_conv_nth dest: has_level_bound)

lemma last_not_in_butlast: "distinct xs \<Longrightarrow> x \<in> set (butlast xs) \<Longrightarrow> x \<noteq> last xs"
  by (cases xs rule: rev_cases) auto

lemma length_pushed: "length (pushed h stack obj) = Suc (length h)"
  by (auto simp: pushed_def split: BookmarkBase.splits)

lemma deref_pushed_new: "\<forall>a \<in> set stack. a < length h \<Longrightarrow> deref (pushed h stack obj) (length h) = Some obj"
proof -
  assume "\<forall>a \<in> set stack. a < length h"
  then have "stack \<noteq> [] \<Longrightarrow> last stack \<noteq> length h"
    by (metis last_in_set less_irrefl)
  then show ?thesis
    by (auto simp: pushed_def deref_def nth_append split: BookmarkBase.splits)
qed

lemma deref_pushed_other:
  "x < length h \<Longrightarrow> stack \<noteq> [] \<longrightarrow> x \<noteq> last stack \<Longrightarrow> deref (pushed h stack obj) x = deref h x"
  by (auto simp: pushed_def deref_def nth_append split: BookmarkBase.splits)

lemma deref_pushed_last:
  "stack \<noteq> [] \<Longrightarrow> deref h (last stack) = Some (DirectoryItem title level children) \<Longrightarrow>
   deref (pushed h stack obj) (last stack) = Some (DirectoryItem title level (children @ [length h]))"
  by (auto simp: pushed_def deref_def nth_append split: BookmarkBase.splits if_splits)

lemma children_push_pushed:
  "stack \<noteq> [] \<Longrightarrow> has_level h (last stack) l \<Longrightarrow>
   children_push (stack ! (length stack - Suc 0)) (length h) (h @ [obj]) = Inr (pushed h stack obj)"
  by (auto simp: children_push_def pushed_def has_level_def deref_def nth_append last_conv_nth
           split: if_splits)

lemma has_level_pushed:
  assumes "has_level h a l"
  shows "has_level (pushed h stack obj) a l"
proof (cases "stack \<noteq> [] \<and> a = last stack")
  case True
  from assms obtain title children where "deref h a = Some (DirectoryItem title l children)"
    by (auto simp: has_level_def)
  with True have "deref (pushed h stack obj) a = Some (DirectoryItem title l (children @ [length h]))"
    using deref_pushed_last by simp
  then show ?thesis by (auto simp: has_level_def)
next
  case False
  with assms have "deref (pushed h stack obj) a = deref h a"
    by (intro deref_pushed_other) (auto dest: has_level_bound)
  with assms show ?thesis by (simp add: has_level_def)
qed

lemma levels_pushed:
  "list_all2 (has_level h) xs ls \<Longrightarrow> list_all2 (has_level (pushed h stack obj)) xs ls"
  by (erule list.rel_mono_strong) (rule has_level_pushed)

lemma last_has_level:
  "list_all2 (has_level h) stack ls \<Longrightarrow> stack \<noteq> [] \<Longrightarrow> \<exists>l. has_level h (last stack) l"
  by (cases stack rule: rev_cases) (auto simp: list_all2_append1 list_all2_Cons1)

lemma attach_sim:
  assumes o: "open_rep h (closed_set h stack) stack refs F"
    and dist: "distinct stack"
    and lv: "list_all2 (has_level h) stack ls"
    and S': "closed_set h stack \<subseteq> S'"
    and new: "open_rep (pushed h stack obj) S' bs [length h] [n]"
  shows "open_rep (pushed h stack obj) S' (stack @ bs)
           (if stack = [] then refs @ [length h] else refs) (attach (length stack) n F)"
  using o S'
proof (rule open_rep_attach)
  fix x assume "x \<in> closed_set h stack"
  then show "deref (pushed h stack obj) x = deref h x"
    by (intro deref_pushed_other) (auto simp: closed_set_def)
next
  fix x assume x: "x \<in> set (butlast stack)"
  then have "x \<in> set stack" by (rule in_set_butlastD)
  with lv have "x < length h" by (rule levels_bound)
  moreover from dist x have "x \<noteq> last stack" by (rule last_not_in_butlast)
  ultimately show "deref (pushed h stack obj) x = deref h x"
    by (intro deref_pushed_other) auto
next
  fix title level children
  assume "stack \<noteq> []" "deref h (last stack) = Some (DirectoryItem title level children)"
  then show "deref (pushed h stack obj) (last stack) =
               Some (DirectoryItem title level (children @ [length h]))"
    by (rule deref_pushed_last)
next
  show "\<forall>x \<in> set stack. x < length h" using lv by (auto dest: levels_bound)
next
  show "open_rep (pushed h stack obj) S' bs [length h] [n]" by (rule new)
qed

lemma renderer_link_pushed:
  assumes lv: "list_all2 (has_level (heap s)) (directoryStack s) ls"
  shows "renderer_link href title text s =
           Inr (s\<lparr>bookmarks := (if directoryStack s = [] then bookmarks s @ [length (heap s)]
                                 else bookmarks s),
                  heap := pushed (heap s) (directoryStack s) (BookmarkItem text href)\<rparr>)"
proof (cases "directoryStack s = []")
  case True
  then show ?thesis by (simp add: renderer_link_def new_object_def pushed_def)
next
  case False
  with lv obtain l where "has_level (heap s) (last (directoryStack s)) l"
    using last_has_level by blast
  with False show ?thesis
    by (simp add: renderer_link_def new_object_def children_push_pushed)
qed

lemma renderer_heading_pushed:
  assumes lv: "list_all2 (has_level (heap s)) (directoryStack s) ls"
    and stack_def: "stack = take (length (spec_close level ls)) (directoryStack s)"
  shows "renderer_heading text level s =
           Inr \<lparr>bookmarks = (if stack = [] then bookmarks s @ [length (heap s)] else bookmarks s),
                directoryStack = stack @ [length (heap s)],
                heap = pushed (heap s) stack (DirectoryItem text level [])\<rparr>"
proof -
  have pop: "pop_while level (heap s) (directoryStack s) = Inr stack"
    unfolding stack_def using lv by (rule pop_while_sim)
  have lv': "list_all2 (has_level (heap s)) stack (take (length (spec_close level ls)) ls)"
    unfolding stack_def using lv by (rule list_all2_takeI)
  show ?thesis
  proof (cases "stack = []")
    case True
    then show ?thesis by (simp add: renderer_heading_def pop new_object_def pushed_def)
  next
    case False
    with lv' obtain l where "has_level (heap s) (last stack) l"
      using last_has_level by blast
    with False show ?thesis
      by (simp add: renderer_heading_def pop new_object_def children_push_pushed)
  qed
qed

lemma sim_link:
  assumes "sim s z"
  shows "\<exists>s'. renderer_link href title text s = Inr s' \<and> sim s' (spec_step (LinkCall href title text) z)"
proof -
  obtain F ls where z: "z = (F, ls)" by (cases z)
  let ?h = "heap s" and ?st = "directoryStack s"
  let ?h' = "pushed ?h ?st (BookmarkItem text href)"
  let ?refs' = "if ?st = [] then bookmarks s @ [length ?h] else bookmarks s"
  let ?s' = "s\<lparr>bookmarks := ?refs', heap := ?h'\<rparr>"
  from assms z have o: "open_rep ?h (closed_set ?h ?st) ?st (bookmarks s) F"
    and dist: "distinct ?st" and lv: "list_all2 (has_level ?h) ?st ls"
    by (simp_all add: sim_def)
  have bound: "\<forall>a \<in> set ?st. a < length ?h" using lv by (auto dest: levels_bound)
  have step: "renderer_link href title text s = Inr ?s'"
    using lv by (rule renderer_link_pushed)
  have sub: "closed_set ?h ?st \<subseteq> closed_set ?h' ?st"
    by (auto simp: closed_set_def length_pushed)
  have new: "open_rep ?h' (closed_set ?h' ?st) [] [length ?h] [Link text href]"
    using bound by (auto simp: closed_set_def length_pushed deref_pushed_new)
  have "open_rep ?h' (closed_set ?h' ?st) (?st @ []) ?refs' (attach (length ?st) (Link text href) F)"
    using o dist lv sub new by (rule attach_sim)
  moreover have "length ?st = length ls" using lv by (rule list_all2_lengthD)
  moreover have "list_all2 (has_level ?h') ?st ls" using lv by (rule levels_pushed)
  ultimately have "sim ?s' (spec_step (LinkCall href title text) z)"
    using dist unfolding z by (simp add: sim_def)
  with step show ?thesis by blast
qed

lemma sim_heading:
  assumes "sim s z"
  shows "\<exists>s'. renderer_heading text level s = Inr s' \<and> sim s' (spec_step (HeadingCall text level) z)"
proof -
  obtain F ls where z: "z = (F, ls)" by (cases z)
  let ?h = "heap s"
  let ?k = "length (spec_close level ls)"
  let ?st = "take ?k (directoryStack s)"
  let ?h' = "pushed ?h ?st (DirectoryItem text level [])"
  let ?refs' = "if ?st = [] then bookmarks s @ [length ?h] else bookmarks s"
  let ?s' = "\<lparr>bookmarks = ?refs', directoryStack = ?st @ [length ?h], heap = ?h'\<rparr>"
  from assms z have o0: "open_rep ?h (closed_set ?h (directoryStack s)) (directoryStack s) (bookmarks s) F"
    and dist0: "distinct (directoryStack s)"
    and lv0: "list_all2 (has_level ?h) (directoryStack s) ls"
    by (simp_all add: sim_def)
  have bound0: "\<forall>a \<in> set (directoryStack s). a < length ?h"
    using lv0 by (auto dest: levels_bound)
  have step: "renderer_heading text level s = Inr ?s'"
    using lv0 by (rule renderer_heading_pushed) simp
  have o: "open_rep ?h (closed_set ?h ?st) ?st (bookmarks s) F"
    using o0 dist0 bound0 by (rule open_rep_take)
  have dist: "distinct ?st" using dist0 by simp
  have lv: "list_all2 (has_level ?h) ?st (spec_close level ls)"
    using list_all2_takeI[OF lv0, of ?k] spec_close_take[of level ls] by simp
  have bound: "\<forall>a \<in> set ?st. a < length ?h" using bound0 by (auto dest: in_set_takeD)
  then have fresh: "length ?h \<notin> set ?st" by auto
  have sub: "closed_set ?h ?st \<subseteq> closed_set ?h' (?st @ [length ?h])"
    by (auto simp: closed_set_def length_pushed)
  have d: "deref ?h' (length ?h) = Some (DirectoryItem text level [])"
    using bound by (rule deref_pushed_new)
  then have new: "open_rep ?h' (closed_set ?h' (?st @ [length ?h])) [length ?h] [length ?h]
                    [Directory text level []]"
    by simp
  have "open_rep ?h' (closed_set ?h' (?st @ [length ?h])) (?st @ [length ?h]) ?refs'
          (attach (length ?st) (Directory text level []) F)"
    using o dist lv sub new by (rule attach_sim)
  moreover have "length ?st = ?k" using lv by (rule list_all2_lengthD)
  moreover have "list_all2 (has_level ?h') (?st @ [length ?h]) (spec_close level ls @ [level])"
    using levels_pushed[OF lv] d by (intro list_all2_appendI) (auto simp: has_level_def)
  ultimately have "sim ?s' (spec_step (HeadingCall text level) z)"
    using dist fresh unfolding z by (simp add: sim_def Let_def)
  with step show ?thesis by blast
qed

lemma sim_dispatch:
  "sim s z \<Longrightarrow> \<exists>s'. dispatch c s = Inr s' \<and> sim s' (spec_step c z)"
  by (cases c) (simp_all add: sim_heading sim_link)

lemma sim_run:
  "sim s z \<Longrightarrow> \<exists>s'. run_calls calls s = Inr s' \<and> sim s' (fold spec_step calls z)"
proof (induction calls arbitrary: s z)
  case Nil
  then show ?case by simp
next
  case (Cons c calls)
  from sim_dispatch[OF Cons.prems, of c] obtain s1 where
    "dispatch c s = Inr s1" "sim s1 (spec_step c z)" by blast
  with Cons.IH[of s1 "spec_step c z"] show ?case by simp
qed

lemma sim_initial: "sim (initial h) ([], [])"
  by (simp add: sim_def initial_def)

lemma sim_forest: "sim s z \<Longrightarrow> forest_at (heap s) (bookmarks s) = Some (fst z)"
  unfolding sim_def by (blast intro: open_rep_forest_at)

lemma extractBookmarks_refines:
  "\<exists>refs h'. extractBookmarks marked markdownContent h = Inr (refs, h') \<and>
     forest_at h' refs = Some (spec_build (marked markdownContent))"
proof -
  from sim_run[OF sim_initial, of "marked markdownContent" h] obtain s where
    "run_calls (marked markdownContent) (initial h) = Inr s"
    "sim s (fold spec_step (marked markdownContent) ([], []))" by blast
  then show ?thesis
    using sim_forest by (simp add: extractBookmarks_def spec_build_def)
qed

lemma returns_forest_refines:
  "returns_forest (extractBookmarks marked markdownContent h) (spec_build (marked markdownContent))"
  using extractBookmarks_refines[of marked markdownContent h]
  by (auto simp: returns_forest_def)

lemma marked_min_roundtrip:
  "marked_min roundtrip_document =
     [HeadingCall ''A'' 1, HeadingCall ''B'' 2, LinkCall ''http://x'' None ''X'',
      HeadingCall ''C'' 1, LinkCall ''http://y'' None ''Y'']"
  by (simp add: marked_min_def roundtrip_document_def unlines_def heading_of_def link_at_def)

section \<open>Frame, size and level lemmas\<close>

lemma dispatch_shape:
  assumes "sim s z"
  shows "\<exists>k obj. dispatch c s =
           Inr \<lparr>bookmarks = (if take k (directoryStack s) = [] then bookmarks s @ [length (heap s)]
                              else bookmarks s),
                directoryStack = take k (directoryStack s) @
                  (case c of HeadingCall text level \<Rightarrow> [length (heap s)] | LinkCall href title text \<Rightarrow> []),
                heap = pushed (heap s) (take k (directoryStack s)) obj\<rparr>"
proof -
  from assms have lv: "list_all2 (has_level (heap s)) (directoryStack s) (snd z)"
    by (simp add: sim_def)
  show ?thesis
  proof (cases c)
    case (HeadingCall label level)
    have "renderer_heading label level s =
            Inr \<lparr>bookmarks = (if take (length (spec_close level (snd z))) (directoryStack s) = []
                               then bookmarks s @ [length (heap s)] else bookmarks s),
                 directoryStack = take (length (spec_close level (snd z))) (directoryStack s) @ [length (heap s)],
                 heap = pushed (heap s) (take (length (spec_close level (snd z))) (directoryStack s))
                          (DirectoryItem label level [])\<rparr>"
      using lv by (rule renderer_heading_pushed) simp
    with HeadingCall show ?thesis by auto
  next
    case (LinkCall href title label)
    have "renderer_link href title label s =
            Inr (s\<lparr>bookmarks := (if directoryStack s = [] then bookmarks s @ [length (heap s)]
                                  else bookmarks s),
                   heap := pushed (heap s) (directoryStack s) (BookmarkItem label href)\<rparr>)"
      using lv by (rule renderer_link_pushed)
    with LinkCall show ?thesis
      by (intro exI[of _ "length (directoryStack s)"] exI[of _ "BookmarkItem label href"]) simp
  qed
qed

lemma take_pushed:
  "n \<le> length h \<Longrightarrow> \<forall>a \<in> set stack. n \<le> a \<Longrightarrow> take n (pushed h stack obj) = take n h"
  by (auto simp: pushed_def take_update_cancel split: BookmarkBase.splits)

lemma dispatch_frame:
  assumes "sim s z" and "dispatch c s = Inr s'"
    and "n \<le> length (heap s)" and "\<forall>a \<in> set (directoryStack s). n \<le> a"
  shows "take n (heap s') = take n (heap s) \<and> length (heap s') = Suc (length (heap s)) \<and>
         (\<forall>a \<in> set (directoryStack s'). n \<le> a)"
proof -
  from dispatch_shape[OF assms(1), of c] assms(2) obtain k obj where
    s': "s' = \<lparr>bookmarks = (if take k (directoryStack s) = [] then bookmarks s @ [length (heap s)]
                              else bookmarks s),
                directoryStack = take k (directoryStack s) @
                  (case c of HeadingCall text level \<Rightarrow> [length (heap s)] | LinkCall href title text \<Rightarrow> []),
                heap = pushed (heap s) (take k (directoryStack s)) obj\<rparr>"
    by auto
  have "\<forall>a \<in> set (take k (directoryStack s)). n \<le> a"
    using assms(4) by (auto dest: in_set_takeD)
  then show ?thesis
    unfolding s' using assms(3) by (auto simp: take_pushed length_pushed split: renderer_call.splits)
qed

lemma run_frame:
  assumes "sim s z" and "run_calls calls s = Inr s'"
    and "n \<le> length (heap s)" and "\<forall>a \<in> set (directoryStack s). n \<le> a"
  shows "take n (heap s') = take n (heap s) \<and> length (heap s') = length (heap s) + length calls"
  using assms
proof (induction calls arbitrary: s z)
  case Nil
  then show ?case by simp
next
  case (Cons c calls)
  from sim_dispatch[OF Cons.prems(1), of c] obtain s1 where
    d: "dispatch c s = Inr s1" and sim1: "sim s1 (spec_step c z)" by blast
  from Cons.prems(2) d have run: "run_calls calls s1 = Inr s'" by simp
  from dispatch_frame[OF Cons.prems(1) d Cons.prems(3,4)] have
    f: "take n (heap s1) = take n (heap s)" "length (heap s1) = Suc (length (heap s))"
       "\<forall>a \<in> set (directoryStack s1). n \<le> a" by simp_all
  from Cons.IH[OF sim1 run _ f(3)] f(2) Cons.prems(3) have
    "take n (heap s') = take n (heap s1) \<and> length (heap s') = length (heap s1) + length calls"
    by simp
  with f show ?case by simp
qed

lemma reachable_sim:
  assumes "run_calls calls (initial h) = Inr s"
  shows "sim s (fold spec_step calls ([], []))"
  using sim_run[OF sim_initial, of calls h] assms by auto



lemma spec_links:
  "fold spec_step (map (\<lambda>(href, title, label). LinkCall href title label) links)
     ([Directory t L cs], [L]) =
   ([Directory t L (cs @ map (\<lambda>(href, title, label). Link label href) links)], [L])"
  by (induction links arbitrary: cs) (auto)

lemma marked_min_tools:
  "marked_min (unlines [''## Tools'', ''- [a](u)'', ''- [b](v)'']) =
     HeadingCall ''Tools'' 2 #
     map (\<lambda>(href, title, label). LinkCall href title label) [(''u'', None, ''a''), (''v'', None, ''b'')]"
  by (simp add: marked_min_def unlines_def heading_of_def link_at_def)

lemma list_all_both: "list_all (\<lambda>c. P c \<and> Q c) xs = (list_all P xs \<and> list_all Q xs)"
  by (induction xs) auto

lemma open_mono_forest: "open_mono ls F \<Longrightarrow> list_all level_monotonic F"
  by (induction ls arbitrary: F) (auto simp: list_all_both)

lemma open_mono_prepend:
  "list_all level_monotonic F0 \<Longrightarrow> open_mono ls F \<Longrightarrow> open_mono ls (F0 @ F)"
proof (cases ls)
  case Nil
  assume "list_all level_monotonic F0" "open_mono ls F"
  with Nil show ?thesis by simp
next
  case (Cons l ls')
  assume a: "list_all level_monotonic F0" and o: "open_mono ls F"
  from o Cons obtain F1 title cs where
    "F = F1 @ [Directory title l cs]" "list_all level_monotonic F1"
    "list_all (deeper l) cs" "open_mono ls' cs" by auto
  with a have "F0 @ F = (F0 @ F1) @ [Directory title l cs] \<and> list_all level_monotonic (F0 @ F1) \<and>
    list_all (deeper l) cs \<and> open_mono ls' cs" by simp
  then show ?thesis unfolding Cons open_mono.simps by blast
qed

lemma open_mono_close: "open_mono (ls @ [l]) F \<Longrightarrow> open_mono ls F"
proof (induction ls arbitrary: F)
  case Nil
  then show ?case by (auto simp: list_all_both)
next
  case (Cons l' ls)
  from Cons.prems obtain F0 title cs where
    "F = F0 @ [Directory title l' cs]" "list_all level_monotonic F0"
    "list_all (deeper l') cs" "open_mono (ls @ [l]) cs" by auto
  with Cons.IH[of cs] show ?case by auto
qed

lemma open_mono_take: "open_mono ls F \<Longrightarrow> open_mono (take k ls) F"
proof (induction ls rule: rev_induct)
  case Nil
  then show ?case by simp
next
  case (snoc l ls)
  then show ?case by (cases "k \<le> length ls") (auto dest: open_mono_close)
qed

lemma deeper_attach:
  "list_all (deeper l) cs \<Longrightarrow> (k = 0 \<Longrightarrow> deeper l n) \<Longrightarrow> list_all (deeper l) (attach k n cs)"
proof (cases k)
  case 0
  assume "list_all (deeper l) cs" "k = 0 \<Longrightarrow> deeper l n"
  with 0 show ?thesis by simp
next
  case (Suc k')
  assume a: "list_all (deeper l) cs"
  show ?thesis
  proof (cases cs rule: rev_cases)
    case Nil
    with Suc show ?thesis by simp
  next
    case (snoc cs0 c)
    with a Suc show ?thesis by (cases c) auto
  qed
qed

lemma open_mono_attach:
  assumes "open_mono ls F"
    and "ls \<noteq> [] \<Longrightarrow> deeper (last ls) n"
    and "open_mono new [n]"
  shows "open_mono (ls @ new) (attach (length ls) n F)"
  using assms
proof (induction ls arbitrary: F)
  case Nil
  then show ?case by (simp add: open_mono_prepend)
next
  case (Cons l ls)
  from Cons.prems(1) obtain F0 title cs where
    f: "F = F0 @ [Directory title l cs]" and m: "list_all level_monotonic F0"
    and ab: "list_all (deeper l) cs" and sub: "open_mono ls cs" by auto
  have "open_mono (ls @ new) (attach (length ls) n cs)"
    using sub Cons.prems(2,3) by (intro Cons.IH) auto
  moreover have "list_all (deeper l) (attach (length ls) n cs)"
    using ab Cons.prems(2) by (intro deeper_attach) auto
  ultimately show ?case using m unfolding f by auto
qed

lemma spec_close_last:
  "spec_close level ls \<noteq> [] \<Longrightarrow> last (spec_close level ls) < level"
  by (induction ls rule: rev_induct) (auto simp: spec_close_snoc spec_close_Nil)

lemma open_mono_step: "open_mono (snd z) (fst z) \<Longrightarrow> open_mono (snd (spec_step c z)) (fst (spec_step c z))"
proof -
  assume o: "open_mono (snd z) (fst z)"
  obtain F ls where z: "z = (F, ls)" by (cases z)
  show ?thesis
  proof (cases c)
    case (HeadingCall label level)
    have "open_mono (spec_close level ls) F"
      using o z open_mono_take[of ls F "length (spec_close level ls)"] spec_close_take[of level ls]
      by simp
    then have "open_mono (spec_close level ls @ [level])
                 (attach (length (spec_close level ls)) (Directory label level []) F)"
      by (rule open_mono_attach) (auto dest: spec_close_last)
    with HeadingCall z show ?thesis by (simp add: Let_def)
  next
    case (LinkCall href title label)
    from o z have "open_mono (ls @ []) (attach (length ls) (Link label href) F)"
      by (intro open_mono_attach) auto
    with LinkCall z show ?thesis by simp
  qed
qed

lemma open_mono_fold:
  "open_mono (snd z) (fst z) \<Longrightarrow> open_mono (snd (fold spec_step calls z)) (fst (fold spec_step calls z))"
proof (induction calls arbitrary: z)
  case Nil
  then show ?case by simp
next
  case (Cons c calls)
  from Cons.prems have "open_mono (snd (spec_step c z)) (fst (spec_step c z))"
    by (rule open_mono_step)
  then show ?case using Cons.IH[of "spec_step c z"] by simp
qed

lemma spec_build_monotonic: "list_all level_monotonic (spec_build calls)"
  unfolding spec_build_def
  by (rule open_mono_forest[OF open_mono_fold]) simp

section \<open>Steps of the builder on reachable states\<close>

lemma run_links_only:
  "run_calls calls s = Inr s' \<Longrightarrow> directoryStack s = [] \<Longrightarrow> \<not> list_ex is_heading calls \<Longrightarrow>
   directoryStack s' = []"
proof (induction calls arbitrary: s)
  case Nil
  then show ?case by simp
next
  case (Cons c calls)
  from Cons.prems(3) obtain href title label where c: "c = LinkCall href title label"
    by (cases c) auto
  let ?s1 = "s\<lparr>bookmarks := bookmarks s @ [length (heap s)],
               heap := heap s @ [BookmarkItem label href]\<rparr>"
  from Cons.prems(2) have "dispatch c s = Inr ?s1"
    unfolding c by (simp add: renderer_link_def new_object_def)
  with Cons.prems(1) have "run_calls calls ?s1 = Inr s'" by simp
  moreover have "directoryStack ?s1 = []" using Cons.prems(2) by simp
  moreover have "\<not> list_ex is_heading calls" using Cons.prems(3) by simp
  ultimately show ?case by (rule Cons.IH)
qed

lemma spec_close_sorted:
  "sorted_wrt (<) ls \<Longrightarrow> sorted_wrt (<) (spec_close level ls @ [level])"
proof (induction ls rule: rev_induct)
  case Nil
  then show ?case by (simp add: spec_close_Nil)
next
  case (snoc l ls)
  then show ?case
    by (auto simp: spec_close_snoc sorted_wrt_append)
qed

lemma spec_step_sorted: "sorted_wrt (<) (snd z) \<Longrightarrow> sorted_wrt (<) (snd (spec_step c z))"
  by (cases z; cases c) (simp_all add: spec_close_sorted Let_def)

lemma spec_fold_sorted:
  "sorted_wrt (<) (snd z) \<Longrightarrow> sorted_wrt (<) (snd (fold spec_step calls z))"
proof (induction calls arbitrary: z)
  case Nil
  then show ?case by simp
next
  case (Cons c calls)
  from Cons.prems have "sorted_wrt (<) (snd (spec_step c z))" by (rule spec_step_sorted)
  then show ?case using Cons.IH[of "spec_step c z"] by simp
qed

lemma closes_level: "has_level h a l \<Longrightarrow> closes level h a = (level \<le> l)"
  by (auto simp: has_level_def closes_def)

lemma filter_closes_take:
  "list_all2 (has_level h) stack ls \<Longrightarrow> sorted_wrt (<) ls \<Longrightarrow>
   filter (\<lambda>a. \<not> closes level h a) stack = take (length (spec_close level ls)) stack"
proof (induction stack arbitrary: ls rule: rev_induct)
  case Nil
  then show ?case by simp
next
  case (snoc a stack)
  from snoc.prems(1) obtain ls0 l where ls: "ls = ls0 @ [l]"
    and all: "list_all2 (has_level h) stack ls0" and top: "has_level h a l"
    by (auto simp: list_all2_append1 list_all2_Cons1)
  from snoc.prems(2) ls have sorted0: "sorted_wrt (<) ls0" and below: "\<forall>x \<in> set ls0. x < l"
    by (auto simp: sorted_wrt_append)
  have len: "length stack = length ls0" using all by (rule list_all2_lengthD)
  show ?case
  proof (cases "level \<le> l")
    case True
    have "length (spec_close level ls0) \<le> length stack"
      using length_spec_close[of level ls0] len by simp
    with True show ?thesis
      unfolding ls using snoc.IH[OF all sorted0] top
      by (simp add: closes_level spec_close_snoc)
  next
    case False
    have "\<forall>x \<in> set stack. \<not> closes level h x"
    proof
      fix x assume "x \<in> set stack"
      then obtain i where i: "i < length stack" "stack ! i = x" by (auto simp: in_set_conv_nth)
      with all have "has_level h x (ls0 ! i)" by (auto simp: list_all2_conv_all_nth)
      moreover from i len below have "ls0 ! i < l" by simp
      ultimately show "\<not> closes level h x" using False by (simp add: closes_level)
    qed
    then have "filter (\<lambda>a. \<not> closes level h a) stack = stack" by (simp add: filter_id_conv)
    with False show ?thesis
      unfolding ls using top len by (simp add: closes_level spec_close_snoc)
  qed
qed

lemma reachable_sorted:
  assumes "run_calls calls (initial h) = Inr s"
  shows "sorted_wrt (<) (snd (fold spec_step calls ([], [])))"
  by (rule spec_fold_sorted) simp

lemma list_all2_last: "list_all2 P xs ys \<Longrightarrow> xs \<noteq> [] \<Longrightarrow> P (last xs) (last ys)"
  by (cases xs rule: rev_cases) (auto simp: list_all2_append1 list_all2_Cons1)

lemma follows_middle: "follows a b (xs @ a # b # ys)"
proof (induction xs)
  case Nil
  then show ?case by simp
next
  case (Cons x xs)
  then show ?case by (cases xs) auto
qed

lemma extends_refl: "extends s s"
  by (auto simp: extends_def)

lemma extends_trans:
  assumes "extends s s1" and "extends s1 s2"
  shows "extends s s2"
proof -
  from assms(1) obtain m1 where
    len1: "length (heap s) \<le> length (heap s1)"
    and b1: "bookmarks s1 = bookmarks s @ m1" "\<forall>x \<in> set m1. length (heap s) \<le> x"
    and st1: "\<forall>a \<in> set (directoryStack s1). a \<in> set (directoryStack s) \<or> length (heap s) \<le> a"
    and fr1: "\<And>a. a < length (heap s) \<Longrightarrow> a \<notin> set (directoryStack s) \<Longrightarrow>
                deref (heap s1) a = deref (heap s) a"
    and gr1: "\<And>a title level children. deref (heap s) a = Some (DirectoryItem title level children) \<Longrightarrow>
                \<exists>more. deref (heap s1) a = Some (DirectoryItem title level (children @ more))"
    unfolding extends_def by blast
  from assms(2) obtain m2 where
    len2: "length (heap s1) \<le> length (heap s2)"
    and b2: "bookmarks s2 = bookmarks s1 @ m2" "\<forall>x \<in> set m2. length (heap s1) \<le> x"
    and st2: "\<forall>a \<in> set (directoryStack s2). a \<in> set (directoryStack s1) \<or> length (heap s1) \<le> a"
    and fr2: "\<And>a. a < length (heap s1) \<Longrightarrow> a \<notin> set (directoryStack s1) \<Longrightarrow>
                deref (heap s2) a = deref (heap s1) a"
    and gr2: "\<And>a title level children. deref (heap s1) a = Some (DirectoryItem title level children) \<Longrightarrow>
                \<exists>more. deref (heap s2) a = Some (DirectoryItem title level (children @ more))"
    unfolding extends_def by blast
  have "length (heap s) \<le> length (heap s2)" using len1 len2 by simp
  moreover have "\<exists>more. bookmarks s2 = bookmarks s @ more \<and> (\<forall>x \<in> set more. length (heap s) \<le> x)"
    using b1 b2 len1 by (intro exI[of _ "m1 @ m2"]) auto
  moreover have "\<forall>a \<in> set (directoryStack s2). a \<in> set (directoryStack s) \<or> length (heap s) \<le> a"
    using st1 st2 len1 by (meson le_trans)
  moreover have "deref (heap s2) a = deref (heap s) a"
    if "a < length (heap s)" "a \<notin> set (directoryStack s)" for a
  proof -
    from that st1 have "a \<notin> set (directoryStack s1)" by auto
    moreover from that len1 have "a < length (heap s1)" by simp
    ultimately have "deref (heap s2) a = deref (heap s1) a" by (rule fr2[rotated])
    with fr1[OF that] show ?thesis by simp
  qed
  moreover have "\<exists>more. deref (heap s2) a = Some (DirectoryItem title level (children @ more))"
    if "deref (heap s) a = Some (DirectoryItem title level children)" for a title level children
  proof -
    from gr1[OF that] obtain m where "deref (heap s1) a = Some (DirectoryItem title level (children @ m))"
      by blast
    from gr2[OF this] show ?thesis by auto
  qed
  ultimately show ?thesis unfolding extends_def by blast
qed

lemma pushed_extends:
  assumes bound: "\<forall>a \<in> set stack. a < length h"
    and sub: "set stack \<subseteq> set (directoryStack s)"
    and s: "heap s = h"
    and s': "heap s' = pushed h stack obj"
       "bookmarks s' = (if stack = [] then bookmarks s @ [length h] else bookmarks s)"
       "set (directoryStack s') \<subseteq> set stack \<union> {length h}"
  shows "extends s s'"
proof -
  have "\<exists>more. bookmarks s' = bookmarks s @ more \<and> (\<forall>x \<in> set more. length (heap s) \<le> x)"
    using s s'(2) by (cases "stack = []") auto
  moreover have "\<forall>a \<in> set (directoryStack s'). a \<in> set (directoryStack s) \<or> length (heap s) \<le> a"
    using s'(3) sub s by auto
  moreover have "deref (heap s') a = deref (heap s) a"
    if "a < length (heap s)" "a \<notin> set (directoryStack s)" for a
  proof -
    from that(2) sub have "stack \<noteq> [] \<longrightarrow> a \<noteq> last stack"
      by (metis last_in_set subsetD)
    with that(1) show ?thesis unfolding s s'(1) by (intro deref_pushed_other) auto
  qed
  moreover have "\<exists>more. deref (heap s') a = Some (DirectoryItem title level (children @ more))"
    if d: "deref (heap s) a = Some (DirectoryItem title level children)" for a title level children
  proof (cases "stack \<noteq> [] \<and> a = last stack")
    case True
    with d have "deref (heap s') a = Some (DirectoryItem title level (children @ [length h]))"
      unfolding s s'(1) using deref_pushed_last by simp
    then show ?thesis by blast
  next
    case False
    from d have "a < length h" unfolding s by (auto simp: deref_def split: if_splits)
    with False have "deref (heap s') a = deref (heap s) a"
      unfolding s s'(1) by (intro deref_pushed_other) auto
    with d show ?thesis by simp
  qed
  ultimately show ?thesis
    unfolding extends_def using s s'(1) by (simp add: length_pushed)
qed

lemma dispatch_extends:
  assumes "sim s z" and "dispatch c s = Inr s'"
  shows "extends s s'"
proof -
  from assms(1) have lv: "list_all2 (has_level (heap s)) (directoryStack s) (snd z)"
    by (simp add: sim_def)
  from dispatch_shape[OF assms(1), of c] assms(2) obtain k obj where
    s': "s' = \<lparr>bookmarks = (if take k (directoryStack s) = [] then bookmarks s @ [length (heap s)]
                              else bookmarks s),
                directoryStack = take k (directoryStack s) @
                  (case c of HeadingCall label level \<Rightarrow> [length (heap s)] | LinkCall href title label \<Rightarrow> []),
                heap = pushed (heap s) (take k (directoryStack s)) obj\<rparr>"
    by auto
  show ?thesis
  proof (rule pushed_extends[where stack = "take k (directoryStack s)" and h = "heap s" and obj = obj])
    show "\<forall>a \<in> set (take k (directoryStack s)). a < length (heap s)"
      using lv by (auto dest: in_set_takeD levels_bound)
    show "set (take k (directoryStack s)) \<subseteq> set (directoryStack s)" by (rule set_take_subset)
    show "set (directoryStack s') \<subseteq> set (take k (directoryStack s)) \<union> {length (heap s)}"
      unfolding s' by (auto split: renderer_call.splits)
  qed (simp_all add: s')
qed

lemma run_extends:
  assumes "sim s z" and "run_calls calls s = Inr s'"
  shows "extends s s'"
  using assms
proof (induction calls arbitrary: s z)
  case Nil
  then show ?case by (simp add: extends_refl)
next
  case (Cons c calls)
  from sim_dispatch[OF Cons.prems(1), of c] obtain s1 where
    d: "dispatch c s = Inr s1" and sim1: "sim s1 (spec_step c z)" by blast
  from Cons.prems(2) d have "run_calls calls s1 = Inr s'" by simp
  with sim1 have "extends s1 s'" by (rule Cons.IH)
  with dispatch_extends[OF Cons.prems(1) d] show ?case by (rule extends_trans)
qed

lemma run_calls_append:
  "run_calls (xs @ ys) s = (case run_calls xs s of Inl e \<Rightarrow> Inl e | Inr s' \<Rightarrow> run_calls ys s')"
  by (induction xs arbitrary: s) (auto split: sum.splits)

lemma rep_bound: "rep h S a n \<Longrightarrow> a \<in> S"
  by (cases n) auto

lemma reps_bound: "list_all2 (rep h S) refs F \<Longrightarrow> x \<in> set refs \<Longrightarrow> x \<in> S"
  by (induction rule: list_all2_induct) (auto dest: rep_bound)

lemma sim_bookmarks_bound:
  assumes "sim s z"
  shows "\<forall>x \<in> set (bookmarks s). x < length (heap s)"
proof -
  from assms have o: "open_rep (heap s) (closed_set (heap s) (directoryStack s)) (directoryStack s)
                        (bookmarks s) (fst z)"
    by (simp add: sim_def)
  show ?thesis
  proof (cases "directoryStack s")
    case Nil
    with o have "list_all2 (rep (heap s) (closed_set (heap s) [])) (bookmarks s) (fst z)" by simp
    then have "\<forall>x \<in> set (bookmarks s). x \<in> closed_set (heap s) []"
      by (auto dest: reps_bound)
    then show ?thesis by (simp add: closed_set_def)
  next
    case (Cons a as)
    with o obtain refs0 F0 title level cs children where
      r: "bookmarks s = refs0 @ [a]"
      and closed: "list_all2 (rep (heap s) (closed_set (heap s) (a # as))) refs0 F0"
      and d: "deref (heap s) a = Some (DirectoryItem title level children)"
      by auto
    from closed have "\<forall>x \<in> set refs0. x \<in> closed_set (heap s) (a # as)"
      by (auto dest: reps_bound)
    moreover from d have "a < length (heap s)" by (auto simp: deref_def split: if_splits)
    ultimately show ?thesis unfolding r by (auto simp: closed_set_def)
  qed
qed

lemma spec_close_idem: "spec_close level (spec_close level ls) = spec_close level ls"
  by (induction ls rule: rev_induct) (auto simp: spec_close_snoc spec_close_Nil)

lemma two_headings:
  fixes l :: nat
  assumes sim: "sim s z"
    and h0_def: "h0 = heap s"
    and kept_def: "kept = take (length (spec_close l (snd z))) (directoryStack s)"
  shows "\<exists>s1 s2 z2. renderer_heading t1 l s = Inr s1 \<and> renderer_heading t2 l s1 = Inr s2 \<and>
           sim s2 z2 \<and>
           length (heap s2) = Suc (Suc (length h0)) \<and>
           directoryStack s2 = kept @ [Suc (length h0)] \<and>
           (\<forall>a \<in> set kept. a < length h0) \<and>
           deref (heap s2) (length h0) = Some (DirectoryItem t1 l []) \<and>
           deref (heap s2) (Suc (length h0)) = Some (DirectoryItem t2 l []) \<and>
           (if kept = []
            then bookmarks s2 = bookmarks s @ [length h0, Suc (length h0)]
            else bookmarks s2 = bookmarks s \<and>
                 (\<exists>t lv cs. deref (heap s2) (last kept) =
                      Some (DirectoryItem t lv (cs @ [length h0, Suc (length h0)])) \<and> lv < l))"
proof -
  obtain F ls where z: "z = (F, ls)" by (cases z)
  let ?k = "length (spec_close l ls)"
  have kept: "kept = take ?k (directoryStack s)" by (simp add: kept_def z)
  let ?a1 = "length h0"
  let ?h1 = "pushed h0 kept (DirectoryItem t1 l [])"
  let ?s1 = "\<lparr>bookmarks = (if kept = [] then bookmarks s @ [?a1] else bookmarks s),
              directoryStack = kept @ [?a1], heap = ?h1\<rparr>"
  let ?a2 = "Suc ?a1"
  let ?h2 = "pushed ?h1 kept (DirectoryItem t2 l [])"
  let ?s2 = "\<lparr>bookmarks = (if kept = [] then bookmarks ?s1 @ [?a2] else bookmarks ?s1),
              directoryStack = kept @ [?a2], heap = ?h2\<rparr>"
  let ?z1 = "spec_step (HeadingCall t1 l) z"
  let ?z2 = "spec_step (HeadingCall t2 l) ?z1"
  from sim z have lv: "list_all2 (has_level h0) (directoryStack s) ls"
    by (simp add: sim_def h0_def)
  have lvk: "list_all2 (has_level h0) kept (spec_close l ls)"
    using list_all2_takeI[OF lv, of ?k] spec_close_take[of l ls] by (simp add: kept)
  have lenk: "length kept = ?k" using lvk by (rule list_all2_lengthD)
  have bound: "\<forall>a \<in> set kept. a < ?a1" using lvk by (auto dest: levels_bound)
  have len1: "length ?h1 = ?a2" by (simp add: length_pushed)
  have bound1: "\<forall>a \<in> set kept. a < length ?h1" using bound len1 by auto
  have step1: "renderer_heading t1 l s = Inr ?s1"
    using renderer_heading_pushed[of s ls kept l t1] lv kept by (simp add: h0_def)
  from sim_heading[OF sim, of t1 l] step1 have sim1: "sim ?s1 ?z1" by simp
  have z1: "snd ?z1 = spec_close l ls @ [l]" by (simp add: z Let_def)
  from sim1 z1 have lv1: "list_all2 (has_level ?h1) (kept @ [?a1]) (spec_close l ls @ [l])"
    by (simp add: sim_def)
  have "spec_close l (spec_close l ls @ [l]) = spec_close l ls"
    by (simp add: spec_close_snoc spec_close_idem)
  then have kept1: "kept = take (length (spec_close l (spec_close l ls @ [l]))) (directoryStack ?s1)"
    using lenk by simp
  have "renderer_heading t2 l ?s1 =
          Inr \<lparr>bookmarks = (if kept = [] then bookmarks ?s1 @ [length (heap ?s1)] else bookmarks ?s1),
               directoryStack = kept @ [length (heap ?s1)],
               heap = pushed (heap ?s1) kept (DirectoryItem t2 l [])\<rparr>"
  proof (rule renderer_heading_pushed)
    show "list_all2 (has_level (heap ?s1)) (directoryStack ?s1) (spec_close l ls @ [l])"
      using lv1 by simp
    show "kept = take (length (spec_close l (spec_close l ls @ [l]))) (directoryStack ?s1)"
      by (rule kept1)
  qed
  then have step2: "renderer_heading t2 l ?s1 = Inr ?s2"
    by (simp add: length_pushed)
  from sim_heading[OF sim1, of t2 l] step2 have sim2: "sim ?s2 ?z2" by simp
  have new1: "deref ?h1 ?a1 = Some (DirectoryItem t1 l [])"
    using bound by (rule deref_pushed_new)
  have "deref ?h2 ?a1 = deref ?h1 ?a1"
  proof (rule deref_pushed_other)
    show "?a1 < length ?h1" using len1 by simp
    show "kept \<noteq> [] \<longrightarrow> ?a1 \<noteq> last kept" using bound by (metis last_in_set less_irrefl)
  qed
  with new1 have old2: "deref ?h2 ?a1 = Some (DirectoryItem t1 l [])" by simp
  have new2: "deref ?h2 ?a2 = Some (DirectoryItem t2 l [])"
    using deref_pushed_new[OF bound1, of "DirectoryItem t2 l []"] len1 by simp
  have parent: "\<exists>t lv cs. deref ?h2 (last kept) = Some (DirectoryItem t lv (cs @ [?a1, ?a2])) \<and> lv < l"
    if ne: "kept \<noteq> []"
  proof -
    from lvk ne have ne': "spec_close l ls \<noteq> []" by auto
    from lvk ne have "has_level h0 (last kept) (last (spec_close l ls))" by (rule list_all2_last)
    then obtain t cs where
      d: "deref h0 (last kept) = Some (DirectoryItem t (last (spec_close l ls)) cs)"
      by (auto simp: has_level_def)
    from deref_pushed_last[OF ne d] have
      "deref ?h1 (last kept) = Some (DirectoryItem t (last (spec_close l ls)) (cs @ [?a1]))" .
    from deref_pushed_last[OF ne this] len1 have
      "deref ?h2 (last kept) = Some (DirectoryItem t (last (spec_close l ls)) (cs @ [?a1, ?a2]))"
      by simp
    with spec_close_last[OF ne'] show ?thesis by blast
  qed
  have len2: "length ?h2 = Suc (Suc ?a1)" by (simp add: length_pushed)
  show ?thesis
    apply (rule exI[of _ ?s1])
    apply (rule exI[of _ ?s2])
    apply (rule exI[of _ ?z2])
    using step1 step2 sim2 len2 bound old2 new2 parent by auto
qed

lemma marked_min_same_level:
  "marked_min (unlines [''## a'', ''## b'']) = [] @ [HeadingCall ''a'' 2, HeadingCall ''b'' 2] @ []"
  by (simp add: marked_min_def unlines_def heading_of_def link_at_def)

lemma extract_same_level:
  "extractBookmarks marked_min (unlines [''## a'', ''## b'']) [] =
     Inr ([0, 1], [DirectoryItem ''a'' 2 [], DirectoryItem ''b'' 2 []])"
  by code_simp

lemma run_three_headings:
  "run_calls [HeadingCall ''a'' 1, HeadingCall ''b'' 2, HeadingCall ''c'' 3] (initial []) =
     Inr \<lparr>bookmarks = [0], directoryStack = [0, 1, 2],
          heap = [DirectoryItem ''a'' 1 [1], DirectoryItem ''b'' 2 [2], DirectoryItem ''c'' 3 []]\<rparr>"
  by code_simp

lemma run_one_heading:
  "run_calls [HeadingCall ''a'' 2] (initial []) =
     Inr \<lparr>bookmarks = [0], directoryStack = [0], heap = [DirectoryItem ''a'' 2 []]\<rparr>"
  by code_simp

lemma run_two_headings:
  "run_calls [HeadingCall ''A'' 1, HeadingCall ''B'' 2] (initial []) =
     Inr \<lparr>bookmarks = [0], directoryStack = [0, 1],
          heap = [DirectoryItem ''A'' 1 [1], DirectoryItem ''B'' 2 []]\<rparr>"
  by code_simp

lemma run_nothing:
  "run_calls [] (initial []) = Inr \<lparr>bookmarks = [], directoryStack = [], heap = []\<rparr>"
  by (simp add: initial_def)

section \<open>The callbacks on any sequence of calls\<close>



lemma extractBookmarks_with_pure:
  "extractBookmarks_with (pure_library marked) markdownContent (l, h) =
     (extractBookmarks marked markdownContent h, l)"
  by (simp add: extractBookmarks_with_def pure_library_def extractBookmarks_def split: sum.splits)

section \<open>The claims\<close>

text \<open>
  C1. For the round-trip document, whose lines are \<^verbatim>\<open># A\<close>, \<^verbatim>\<open>## B\<close>,
  \<^verbatim>\<open>- [X](http://x)\<close>, \<^verbatim>\<open># C\<close>, \<^verbatim>\<open>- [Y](http://y)\<close> and for which the library makes
  the five corresponding calls, \<^verbatim>\<open>extractBookmarks\<close> returns the forest with the two
  roots A and C, B nested under A, the link X under B and the link Y under C.
\<close>

theorem roundtrip_forest:
  assumes "marked roundtrip_document =
     [HeadingCall ''A'' 1, HeadingCall ''B'' 2, LinkCall ''http://x'' None ''X'',
      HeadingCall ''C'' 1, LinkCall ''http://y'' None ''Y'']"
  shows "returns_forest (extractBookmarks marked roundtrip_document h)
     [Directory ''A'' 1 [Directory ''B'' 2 [Link ''X'' ''http://x'']],
      Directory ''C'' 1 [Link ''Y'' ''http://y'']]"
proof -
  have "spec_build (marked roundtrip_document) =
     [Directory ''A'' 1 [Directory ''B'' 2 [Link ''X'' ''http://x'']],
      Directory ''C'' 1 [Link ''Y'' ''http://y'']]"
    unfolding assms by (simp add: spec_build_def spec_close_def)
  then show ?thesis
    using returns_forest_refines[of marked roundtrip_document h] by simp
qed

theorem roundtrip_forest_witness:
  "marked_min roundtrip_document =
     [HeadingCall ''A'' 1, HeadingCall ''B'' 2, LinkCall ''http://x'' None ''X'',
      HeadingCall ''C'' 1, LinkCall ''http://y'' None ''Y''] \<and>
   returns_forest (extractBookmarks marked_min roundtrip_document [])
     [Directory ''A'' 1 [Directory ''B'' 2 [Link ''X'' ''http://x'']],
      Directory ''C'' 1 [Link ''Y'' ''http://y'']]"
  using roundtrip_forest[where marked = marked_min and h = "[]"] marked_min_roundtrip by simp



text \<open>
  C4. When the calls for the text are one heading at level \<open>L\<close> followed by \<open>N\<close> link
  calls and nothing else, the forest is a single root Directory of level \<open>L\<close> whose
  children are exactly the \<open>N\<close> Links, in the order of the calls.
\<close>

theorem single_heading_links:
  assumes "marked markdownContent =
     HeadingCall heading L # map (\<lambda>(href, title, label). LinkCall href title label) links"
  shows "returns_forest (extractBookmarks marked markdownContent h)
     [Directory heading L (map (\<lambda>(href, title, label). Link label href) links)]"
proof -
  have "spec_build (marked markdownContent) =
     [Directory heading L (map (\<lambda>(href, title, label). Link label href) links)]"
    unfolding assms spec_build_def using spec_links[of links heading L "[]"]
    by (simp add: spec_close_def)
  then show ?thesis
    using returns_forest_refines[of marked markdownContent h] by simp
qed

theorem single_heading_links_witness:
  "marked_min (unlines [''## Tools'', ''- [a](u)'', ''- [b](v)'']) =
     [HeadingCall ''Tools'' 2, LinkCall ''u'' None ''a'', LinkCall ''v'' None ''b''] \<and>
   returns_forest (extractBookmarks marked_min (unlines [''## Tools'', ''- [a](u)'', ''- [b](v)'']) [])
     [Directory ''Tools'' 2 [Link ''a'' ''u'', Link ''b'' ''v'']]"
  using single_heading_links[where marked = marked_min
      and markdownContent = "unlines [''## Tools'', ''- [a](u)'', ''- [b](v)'']"
      and heading = "''Tools''" and L = 2
      and links = "[(''u'', None, ''a''), (''v'', None, ''b'')]" and h = "[]"]
    marked_min_tools
  by simp

text \<open>
  C6. In the forest \<^verbatim>\<open>extractBookmarks\<close> returns, every Directory that is a child of a
  Directory has a strictly greater level than its parent, at every depth.
\<close>

theorem nesting_level_monotonic:
  "\<exists>refs h' F. extractBookmarks marked markdownContent h = Inr (refs, h') \<and>
     forest_at h' refs = Some F \<and> list_all level_monotonic F"
  using extractBookmarks_refines[of marked markdownContent h] spec_build_monotonic by blast

theorem nesting_level_monotonic_witness:
  "\<exists>refs h'. extractBookmarks marked_min roundtrip_document [] = Inr (refs, h') \<and>
     forest_at h' refs =
       Some [Directory ''A'' 1 [Directory ''B'' 2 [Link ''X'' ''http://x'']],
             Directory ''C'' 1 [Link ''Y'' ''http://y'']] \<and>
     list_all level_monotonic
       [Directory ''A'' 1 [Directory ''B'' 2 [Link ''X'' ''http://x'']],
        Directory ''C'' 1 [Link ''Y'' ''http://y'']]"
proof -
  from nesting_level_monotonic[of marked_min roundtrip_document "[]"] obtain refs h' F where
    r: "extractBookmarks marked_min roundtrip_document [] = Inr (refs, h')"
    and f: "forest_at h' refs = Some F" and m: "list_all level_monotonic F" by blast
  from returns_forest_refines[of marked_min roundtrip_document "[]"] r f
  have "F = spec_build (marked_min roundtrip_document)" by (simp add: returns_forest_def)
  then have "F = [Directory ''A'' 1 [Directory ''B'' 2 [Link ''X'' ''http://x'']],
             Directory ''C'' 1 [Link ''Y'' ''http://y'']]"
    unfolding marked_min_roundtrip by (simp add: spec_build_def spec_close_def)
  with r f m show ?thesis by blast
qed







text \<open>
  C2. When the calls for the text contain two consecutive headings of the same level
  \<open>l\<close>, then in the result the first Directory (the object allocated by the first of
  the two calls) has no children, so the second is not its child, and the second comes
  directly after the first in the same array: in the root array when the first is a
  root, and otherwise in the children of one Directory of a smaller level. The equal
  level pops the first before the second is attached.
\<close>

theorem same_level_headings_are_siblings:
  assumes "marked markdownContent = pre @ [HeadingCall t1 l, HeadingCall t2 l] @ post"
  shows "\<exists>refs h'. extractBookmarks marked markdownContent h = Inr (refs, h') \<and>
           deref h' (length h + length pre) = Some (DirectoryItem t1 l []) \<and>
           (\<exists>cs. deref h' (Suc (length h + length pre)) = Some (DirectoryItem t2 l cs)) \<and>
           (if length h + length pre \<in> set refs
            then follows (length h + length pre) (Suc (length h + length pre)) refs
            else \<exists>p t lv cs. p < length h + length pre \<and>
                   deref h' p = Some (DirectoryItem t lv cs) \<and> lv < l \<and>
                   follows (length h + length pre) (Suc (length h + length pre)) cs)"
proof -
  from sim_run[OF sim_initial, of pre h] obtain s where
    run0: "run_calls pre (initial h) = Inr s"
    and sim: "sim s (fold spec_step pre ([], []))" by blast
  let ?a1 = "length (heap s)"
  let ?a2 = "Suc ?a1"
  from run_frame[OF sim_initial run0, of 0] have a1: "length (heap s) = length h + length pre"
    by (simp add: initial_def)
  let ?kept = "take (length (spec_close l (snd (fold spec_step pre ([], []))))) (directoryStack s)"
  from two_headings[OF sim refl refl, where l = l and ?t1.0 = t1 and ?t2.0 = t2]
  obtain s1 s2 z2 where
    step1: "renderer_heading t1 l s = Inr s1" and step2: "renderer_heading t2 l s1 = Inr s2"
    and sim2: "sim s2 z2"
    and len2: "length (heap s2) = Suc ?a2"
    and stack2: "directoryStack s2 = ?kept @ [?a2]"
    and bound: "\<forall>a \<in> set ?kept. a < ?a1"
    and first: "deref (heap s2) ?a1 = Some (DirectoryItem t1 l [])"
    and second: "deref (heap s2) ?a2 = Some (DirectoryItem t2 l [])"
    and place: "if ?kept = []
            then bookmarks s2 = bookmarks s @ [?a1, ?a2]
            else bookmarks s2 = bookmarks s \<and>
                 (\<exists>t lv cs. deref (heap s2) (last ?kept) =
                      Some (DirectoryItem t lv (cs @ [?a1, ?a2])) \<and> lv < l)"
    by blast
  from sim_run[OF sim2, of post] obtain s3 where
    run3: "run_calls post s2 = Inr s3" by blast
  from run_extends[OF sim2 run3] obtain more where
    bm: "bookmarks s3 = bookmarks s2 @ more" "\<forall>x \<in> set more. length (heap s2) \<le> x"
    and frame: "\<And>a. a < length (heap s2) \<Longrightarrow> a \<notin> set (directoryStack s2) \<Longrightarrow>
                  deref (heap s3) a = deref (heap s2) a"
    and grow: "\<And>a title level children.
                  deref (heap s2) a = Some (DirectoryItem title level children) \<Longrightarrow>
                  \<exists>more. deref (heap s3) a = Some (DirectoryItem title level (children @ more))"
    unfolding extends_def by blast
  have run: "run_calls (marked markdownContent) (initial h) = Inr s3"
    unfolding assms using run0 step1 step2 run3 by (simp add: run_calls_append)
  have "?a1 \<notin> set (directoryStack s2)" using bound stack2 by auto
  with frame[of ?a1] len2 first have first3: "deref (heap s3) ?a1 = Some (DirectoryItem t1 l [])"
    by simp
  from grow[OF second] have second3: "\<exists>cs. deref (heap s3) ?a2 = Some (DirectoryItem t2 l cs)"
    by auto
  have place3: "if ?a1 \<in> set (bookmarks s3)
            then follows ?a1 ?a2 (bookmarks s3)
            else \<exists>p t lv cs. p < ?a1 \<and> deref (heap s3) p = Some (DirectoryItem t lv cs) \<and> lv < l \<and>
                   follows ?a1 ?a2 cs"
  proof (cases "?kept = []")
    case True
    with place bm have "bookmarks s3 = bookmarks s @ ?a1 # ?a2 # more" by simp
    then show ?thesis by (simp add: follows_middle)
  next
    case False
    with place obtain t lv cs where
      b2: "bookmarks s2 = bookmarks s"
      and d: "deref (heap s2) (last ?kept) = Some (DirectoryItem t lv (cs @ [?a1, ?a2]))"
      and lv: "lv < l" by auto
    have "\<forall>x \<in> set (bookmarks s). x < ?a1" using sim_bookmarks_bound[OF sim] by simp
    moreover have "\<forall>x \<in> set more. ?a1 < x" using bm(2) len2 by auto
    ultimately have notroot: "?a1 \<notin> set (bookmarks s3)" unfolding bm(1) b2 by auto
    from grow[OF d] obtain more' where
      "deref (heap s3) (last ?kept) = Some (DirectoryItem t lv (cs @ ?a1 # ?a2 # more'))" by auto
    moreover have "last ?kept < ?a1" using False bound last_in_set by blast
    ultimately have "\<exists>p t lv cs. p < ?a1 \<and> deref (heap s3) p = Some (DirectoryItem t lv cs) \<and> lv < l \<and>
                   follows ?a1 ?a2 cs"
      using lv follows_middle by blast
    with notroot show ?thesis by simp
  qed
  show ?thesis
    apply (rule exI[of _ "bookmarks s3"])
    apply (rule exI[of _ "heap s3"])
    using run first3 second3 place3 unfolding a1 by (simp add: extractBookmarks_def)
qed

theorem same_level_headings_are_siblings_witness:
  "marked_min (unlines [''## a'', ''## b'']) = [] @ [HeadingCall ''a'' 2, HeadingCall ''b'' 2] @ [] \<and>
   (\<exists>refs h'. extractBookmarks marked_min (unlines [''## a'', ''## b'']) [] = Inr (refs, h') \<and>
      deref h' 0 = Some (DirectoryItem ''a'' 2 []) \<and>
      (\<exists>cs. deref h' 1 = Some (DirectoryItem ''b'' 2 cs)) \<and>
      0 \<in> set refs \<and> follows 0 1 refs \<and>
      forest_at h' refs = Some [Directory ''a'' 2 [], Directory ''b'' 2 []])"
proof -
  note inst = same_level_headings_are_siblings[where marked = marked_min
      and markdownContent = "unlines [''## a'', ''## b'']" and pre = "[]" and post = "[]"
      and ?t1.0 = "''a''" and ?t2.0 = "''b''" and l = 2 and h = "[]", OF marked_min_same_level]
  then obtain refs h' where
    r: "extractBookmarks marked_min (unlines [''## a'', ''## b'']) [] = Inr (refs, h')"
    and first: "deref h' 0 = Some (DirectoryItem ''a'' 2 [])"
    and second: "\<exists>cs. deref h' 1 = Some (DirectoryItem ''b'' 2 cs)"
    and place: "0 \<in> set refs \<and> follows 0 1 refs"
    by (auto split: if_splits)
  from r extract_same_level have "refs = [0, 1]"
    "h' = [DirectoryItem ''a'' 2 [], DirectoryItem ''b'' 2 []]" by simp_all
  then have "forest_at h' refs = Some [Directory ''a'' 2 [], Directory ''b'' 2 []]"
    by (simp add: forest_at_def node_at.simps)
  with place show ?thesis using marked_min_same_level r first second by blast
qed

text \<open>
  C3. In every state that a run of the callbacks reaches, one call of
  \<^verbatim>\<open>renderer.heading\<close> removes from the stack every open Directory whose level is
  greater than or equal to the new level, and only those, however many they are; the
  new Directory is attached to the innermost Directory that stays open (whose level is
  smaller), or to the root array when none stays open, and becomes the top of the
  stack. For the levels 2 then 1 the second Directory is a root after the first.
\<close>

theorem heading_closes_deeper:
  assumes "run_calls calls (initial h) = Inr s"
  shows "\<exists>s' kept. renderer_heading label level s = Inr s' \<and>
           kept = filter (\<lambda>a. \<not> closes level (heap s) a) (directoryStack s) \<and>
           directoryStack s' = kept @ [length (heap s)] \<and>
           deref (heap s') (length (heap s)) = Some (DirectoryItem label level []) \<and>
           (if kept = []
            then bookmarks s' = bookmarks s @ [length (heap s)]
            else bookmarks s' = bookmarks s \<and>
                 (\<exists>t l cs. deref (heap s) (last kept) = Some (DirectoryItem t l cs) \<and> l < level \<and>
                    deref (heap s') (last kept) = Some (DirectoryItem t l (cs @ [length (heap s)])))) \<and>
           (\<exists>F. forest_at (heap s) (bookmarks s) = Some F \<and>
              forest_at (heap s') (bookmarks s') =
                Some (attach (length kept) (Directory label level []) F))"
proof -
  let ?z = "fold spec_step calls ([], [])"
  let ?k = "length (spec_close level (snd ?z))"
  let ?kept = "take ?k (directoryStack s)"
  let ?s' = "\<lparr>bookmarks = (if ?kept = [] then bookmarks s @ [length (heap s)] else bookmarks s),
              directoryStack = ?kept @ [length (heap s)],
              heap = pushed (heap s) ?kept (DirectoryItem label level [])\<rparr>"
  from assms have sim: "sim s ?z" by (rule reachable_sim)
  then have lv: "list_all2 (has_level (heap s)) (directoryStack s) (snd ?z)"
    by (simp add: sim_def)
  have sorted: "sorted_wrt (<) (snd ?z)" using assms by (rule reachable_sorted)
  have kept: "filter (\<lambda>a. \<not> closes level (heap s) a) (directoryStack s) = ?kept"
    using lv sorted by (rule filter_closes_take)
  have lv': "list_all2 (has_level (heap s)) ?kept (spec_close level (snd ?z))"
    using list_all2_takeI[OF lv, of ?k] spec_close_take[of level "snd ?z"] by simp
  have bound: "\<forall>a \<in> set ?kept. a < length (heap s)"
    using lv' by (auto dest: levels_bound)
  have step: "renderer_heading label level s = Inr ?s'"
    using lv by (rule renderer_heading_pushed) simp
  from sim_heading[OF sim, of label level] step
  have sim': "sim ?s' (spec_step (HeadingCall label level) ?z)" by simp
  have new: "deref (heap ?s') (length (heap s)) = Some (DirectoryItem label level [])"
    using bound by (simp add: deref_pushed_new)
  have top: "\<exists>t l cs. deref (heap s) (last ?kept) = Some (DirectoryItem t l cs) \<and> l < level \<and>
               deref (heap ?s') (last ?kept) = Some (DirectoryItem t l (cs @ [length (heap s)]))"
    if ne: "?kept \<noteq> []"
  proof -
    from lv' ne have ne': "spec_close level (snd ?z) \<noteq> []" by auto
    from lv' ne have "has_level (heap s) (last ?kept) (last (spec_close level (snd ?z)))"
      by (rule list_all2_last)
    then obtain t cs where
      d: "deref (heap s) (last ?kept) = Some (DirectoryItem t (last (spec_close level (snd ?z))) cs)"
      by (auto simp: has_level_def)
    from deref_pushed_last[OF ne d] d spec_close_last[OF ne'] show ?thesis by simp
  qed
  have len: "length ?kept = ?k" using lv' by (rule list_all2_lengthD)
  have forest: "forest_at (heap s) (bookmarks s) = Some (fst ?z) \<and>
                forest_at (heap ?s') (bookmarks ?s') =
                  Some (attach (length ?kept) (Directory label level []) (fst ?z))"
    using sim_forest[OF sim] sim_forest[OF sim'] len by (cases ?z) (simp add: Let_def)
  show ?thesis
    apply (rule exI[of _ ?s'])
    apply (rule exI[of _ ?kept])
    using step kept new top forest by auto
qed

theorem heading_closes_deeper_witness:
  "run_calls [HeadingCall ''a'' 1, HeadingCall ''b'' 2, HeadingCall ''c'' 3] (initial []) =
     Inr \<lparr>bookmarks = [0], directoryStack = [0, 1, 2],
          heap = [DirectoryItem ''a'' 1 [1], DirectoryItem ''b'' 2 [2], DirectoryItem ''c'' 3 []]\<rparr> \<and>
   (\<exists>s'. renderer_heading ''d'' 2
            \<lparr>bookmarks = [0], directoryStack = [0, 1, 2],
             heap = [DirectoryItem ''a'' 1 [1], DirectoryItem ''b'' 2 [2], DirectoryItem ''c'' 3 []]\<rparr> = Inr s' \<and>
      directoryStack s' = [0, 3] \<and> bookmarks s' = [0] \<and>
      deref (heap s') 0 = Some (DirectoryItem ''a'' 1 [1, 3]) \<and>
      forest_at (heap s') (bookmarks s') =
        Some [Directory ''a'' 1 [Directory ''b'' 2 [Directory ''c'' 3 []], Directory ''d'' 2 []]]) \<and>
   run_calls [HeadingCall ''a'' 2] (initial []) =
     Inr \<lparr>bookmarks = [0], directoryStack = [0], heap = [DirectoryItem ''a'' 2 []]\<rparr> \<and>
   (\<exists>s'. renderer_heading ''b'' 1
            \<lparr>bookmarks = [0], directoryStack = [0], heap = [DirectoryItem ''a'' 2 []]\<rparr> = Inr s' \<and>
      directoryStack s' = [1] \<and> bookmarks s' = [0, 1] \<and>
      forest_at (heap s') (bookmarks s') = Some [Directory ''a'' 2 [], Directory ''b'' 1 []])"
proof -
  let ?S0 = "\<lparr>bookmarks = [0], directoryStack = [0, 1, 2],
          heap = [DirectoryItem ''a'' 1 [1], DirectoryItem ''b'' 2 [2], DirectoryItem ''c'' 3 []]\<rparr>"
  let ?S1 = "\<lparr>bookmarks = [0], directoryStack = [0], heap = [DirectoryItem ''a'' 2 []]\<rparr>"
  have f0: "forest_at (heap ?S0) (bookmarks ?S0) =
              Some [Directory ''a'' 1 [Directory ''b'' 2 [Directory ''c'' 3 []]]]"
    by (simp add: forest_at_def node_at.simps)
  have f1: "forest_at (heap ?S1) (bookmarks ?S1) = Some [Directory ''a'' 2 []]"
    by (simp add: forest_at_def node_at.simps)
  have k0: "filter (\<lambda>a. \<not> closes 2 (heap ?S0) a) (directoryStack ?S0) = [0]"
    by (simp add: closes_def deref_def)
  have k1: "filter (\<lambda>a. \<not> closes 1 (heap ?S1) a) (directoryStack ?S1) = []"
    by (simp add: closes_def deref_def)
  from heading_closes_deeper[OF run_three_headings, of "''d''" 2] f0 k0
  have a: "\<exists>s'. renderer_heading ''d'' 2 ?S0 = Inr s' \<and>
      directoryStack s' = [0, 3] \<and> bookmarks s' = [0] \<and>
      deref (heap s') 0 = Some (DirectoryItem ''a'' 1 [1, 3]) \<and>
      forest_at (heap s') (bookmarks s') =
        Some [Directory ''a'' 1 [Directory ''b'' 2 [Directory ''c'' 3 []], Directory ''d'' 2 []]]"
    by (auto simp: deref_def)
  from heading_closes_deeper[OF run_one_heading, of "''b''" 1] f1 k1
  have b: "\<exists>s'. renderer_heading ''b'' 1 ?S1 = Inr s' \<and>
      directoryStack s' = [1] \<and> bookmarks s' = [0, 1] \<and>
      forest_at (heap s') (bookmarks s') = Some [Directory ''a'' 2 [], Directory ''b'' 1 []]"
    by (auto simp: deref_def)
  from a b run_three_headings run_one_heading show ?thesis by blast
qed

text \<open>
  C5. In every state that a run of the callbacks reaches, \<^verbatim>\<open>renderer.link\<close> allocates
  the \<^verbatim>\<open>BookmarkItem\<close> and appends it to the children of the top of the directory
  stack, or to \<^verbatim>\<open>bookmarks\<close> when the stack is empty; the stack is unchanged. In the
  forest the Link becomes the last child of the innermost open Directory. Before any
  heading call the stack is empty, so such links are roots.
\<close>

theorem link_attaches_to_top:
  assumes "run_calls calls (initial h) = Inr s"
  shows "\<exists>s'. renderer_link href title label s = Inr s' \<and>
           directoryStack s' = directoryStack s \<and>
           deref (heap s') (length (heap s)) = Some (BookmarkItem label href) \<and>
           (if directoryStack s = []
            then bookmarks s' = bookmarks s @ [length (heap s)]
            else bookmarks s' = bookmarks s \<and>
                 (\<exists>t l cs. deref (heap s) (last (directoryStack s)) = Some (DirectoryItem t l cs) \<and>
                    deref (heap s') (last (directoryStack s)) =
                      Some (DirectoryItem t l (cs @ [length (heap s)])))) \<and>
           (\<exists>F. forest_at (heap s) (bookmarks s) = Some F \<and>
              forest_at (heap s') (bookmarks s') =
                Some (attach (length (directoryStack s)) (Link label href) F)) \<and>
           (list_ex is_heading calls \<or> directoryStack s = [])"
proof -
  let ?z = "fold spec_step calls ([], [])"
  let ?s' = "s\<lparr>bookmarks := (if directoryStack s = [] then bookmarks s @ [length (heap s)]
                               else bookmarks s),
                heap := pushed (heap s) (directoryStack s) (BookmarkItem label href)\<rparr>"
  from assms have sim: "sim s ?z" by (rule reachable_sim)
  then have lv: "list_all2 (has_level (heap s)) (directoryStack s) (snd ?z)"
    by (simp add: sim_def)
  have bound: "\<forall>a \<in> set (directoryStack s). a < length (heap s)"
    using lv by (auto dest: levels_bound)
  have step: "renderer_link href title label s = Inr ?s'"
    using lv by (rule renderer_link_pushed)
  from sim_link[OF sim, of href title label] step
  have sim': "sim ?s' (spec_step (LinkCall href title label) ?z)" by simp
  have new: "deref (heap ?s') (length (heap s)) = Some (BookmarkItem label href)"
    using bound by (simp add: deref_pushed_new)
  have top: "\<exists>t l cs. deref (heap s) (last (directoryStack s)) = Some (DirectoryItem t l cs) \<and>
               deref (heap ?s') (last (directoryStack s)) =
                 Some (DirectoryItem t l (cs @ [length (heap s)]))"
    if ne: "directoryStack s \<noteq> []"
  proof -
    from last_has_level[OF lv ne] obtain t l cs where
      d: "deref (heap s) (last (directoryStack s)) = Some (DirectoryItem t l cs)"
      by (auto simp: has_level_def)
    from deref_pushed_last[OF ne d] d show ?thesis by simp
  qed
  have len: "length (directoryStack s) = length (snd ?z)" using lv by (rule list_all2_lengthD)
  have forest: "forest_at (heap s) (bookmarks s) = Some (fst ?z) \<and>
                forest_at (heap ?s') (bookmarks ?s') =
                  Some (attach (length (directoryStack s)) (Link label href) (fst ?z))"
    using sim_forest[OF sim] sim_forest[OF sim'] len by (cases ?z) simp
  have first: "list_ex is_heading calls \<or> directoryStack s = []"
    using run_links_only[OF assms] by (auto simp: initial_def)
  show ?thesis
    apply (rule exI[of _ ?s'])
    using step new top forest first by auto
qed

theorem link_attaches_to_top_witness:
  "run_calls [HeadingCall ''A'' 1, HeadingCall ''B'' 2] (initial []) =
     Inr \<lparr>bookmarks = [0], directoryStack = [0, 1],
          heap = [DirectoryItem ''A'' 1 [1], DirectoryItem ''B'' 2 []]\<rparr> \<and>
   (\<exists>s'. renderer_link ''http://x'' None ''X''
            \<lparr>bookmarks = [0], directoryStack = [0, 1],
             heap = [DirectoryItem ''A'' 1 [1], DirectoryItem ''B'' 2 []]\<rparr> = Inr s' \<and>
      directoryStack s' = [0, 1] \<and> bookmarks s' = [0] \<and>
      deref (heap s') 1 = Some (DirectoryItem ''B'' 2 [2]) \<and>
      deref (heap s') 2 = Some (BookmarkItem ''X'' ''http://x'') \<and>
      forest_at (heap s') (bookmarks s') =
        Some [Directory ''A'' 1 [Directory ''B'' 2 [Link ''X'' ''http://x'']]]) \<and>
   run_calls [] (initial []) = Inr \<lparr>bookmarks = [], directoryStack = [], heap = []\<rparr> \<and>
   (\<exists>s'. renderer_link ''http://r'' None ''R'' \<lparr>bookmarks = [], directoryStack = [], heap = []\<rparr> = Inr s' \<and>
      directoryStack s' = [] \<and> bookmarks s' = [0] \<and>
      forest_at (heap s') (bookmarks s') = Some [Link ''R'' ''http://r''])"
proof -
  let ?S0 = "\<lparr>bookmarks = [0], directoryStack = [0, 1],
          heap = [DirectoryItem ''A'' 1 [1], DirectoryItem ''B'' 2 []]\<rparr>"
  let ?S1 = "\<lparr>bookmarks = [], directoryStack = [], heap = []\<rparr>"
  have f0: "forest_at (heap ?S0) (bookmarks ?S0) = Some [Directory ''A'' 1 [Directory ''B'' 2 []]]"
    by (simp add: forest_at_def node_at.simps)
  have f1: "forest_at (heap ?S1) (bookmarks ?S1) = Some []"
    by (simp add: forest_at_def)
  have d0: "deref (heap ?S0) (last (directoryStack ?S0)) = Some (DirectoryItem ''B'' 2 [])"
    by (simp add: deref_def)
  from link_attaches_to_top[OF run_two_headings, of "''http://x''" None "''X''"] f0 d0
  have a: "\<exists>s'. renderer_link ''http://x'' None ''X'' ?S0 = Inr s' \<and>
      directoryStack s' = [0, 1] \<and> bookmarks s' = [0] \<and>
      deref (heap s') 1 = Some (DirectoryItem ''B'' 2 [2]) \<and>
      deref (heap s') 2 = Some (BookmarkItem ''X'' ''http://x'') \<and>
      forest_at (heap s') (bookmarks s') =
        Some [Directory ''A'' 1 [Directory ''B'' 2 [Link ''X'' ''http://x'']]]"
    by (auto simp: numeral_2_eq_2)
  from link_attaches_to_top[OF run_nothing, of "''http://r''" None "''R''"] f1
  have b: "\<exists>s'. renderer_link ''http://r'' None ''R'' ?S1 = Inr s' \<and>
      directoryStack s' = [] \<and> bookmarks s' = [0] \<and>
      forest_at (heap s') (bookmarks s') = Some [Link ''R'' ''http://r'']"
    by auto
  from a b run_two_headings run_nothing show ?thesis by blast
qed

text \<open>
  C10. When \<^verbatim>\<open>readBookmarksFile\<close> returns \<^verbatim>\<open>null\<close>, which happens when no workspace
  folder is open or \<^verbatim>\<open>BOOKMARKS.md\<close> does not exist in the first folder,
  \<^verbatim>\<open>refresh\<close> leaves the provider as it is: the same \<^verbatim>\<open>bookmarks\<close>, the same store,
  and no event fired.
\<close>

theorem refresh_unreadable_file:
  assumes "readBookmarksFile sys = Inr None"
  shows "refresh marked sys p = Inr p \<and>
         (workspaceFolders sys = None \<or>
          (\<exists>folder rest. workspaceFolders sys = Some (folder # rest) \<and>
             files sys (path_join folder ''BOOKMARKS.md'') = None))"
  using assms
  by (auto simp: refresh_def readBookmarksFile_def split: option.splits list.splits)

theorem refresh_unreadable_file_witness:
  "readBookmarksFile \<lparr>workspaceFolders = Some [''/w''], files = (\<lambda>path. None)\<rparr> = Inr None \<and>
   refresh marked_min \<lparr>workspaceFolders = Some [''/w''], files = (\<lambda>path. None)\<rparr>
     \<lparr>this_bookmarks = [0], fired = 1, store = [BookmarkItem ''X'' ''http://x'']\<rparr> =
   Inr \<lparr>this_bookmarks = [0], fired = 1, store = [BookmarkItem ''X'' ''http://x'']\<rparr> \<and>
   readBookmarksFile \<lparr>workspaceFolders = None, files = (\<lambda>path. None)\<rparr> = Inr None \<and>
   refresh marked_min \<lparr>workspaceFolders = None, files = (\<lambda>path. None)\<rparr>
     \<lparr>this_bookmarks = [0], fired = 1, store = [BookmarkItem ''X'' ''http://x'']\<rparr> =
   Inr \<lparr>this_bookmarks = [0], fired = 1, store = [BookmarkItem ''X'' ''http://x'']\<rparr>"
proof -
  have a: "readBookmarksFile \<lparr>workspaceFolders = Some [''/w''], files = (\<lambda>path. None)\<rparr> = Inr None"
    by (simp add: readBookmarksFile_def)
  have b: "readBookmarksFile \<lparr>workspaceFolders = None, files = (\<lambda>path. None)\<rparr> = Inr None"
    by (simp add: readBookmarksFile_def)
  from refresh_unreadable_file[OF a, of marked_min] refresh_unreadable_file[OF b, of marked_min] a b
  show ?thesis by blast
qed

end
